theory Spec2Isabelle
  imports Main
begin

section \<open>JavaScript values\<close>

text \<open>
  The values that can sit in a props object or in the reactive target.  Objects and
  functions are compared by reference, so they are represented by their address
  (\<open>JObj\<close>, \<open>JFun\<close>); the built-in functions of the host are named (\<open>JBuiltin\<close>), and
  \<open>JObjectPrototype\<close> is the object \<open>Object.prototype\<close>.  Numbers other than NaN compare by
  value (\<open>JNum\<close>); NaN is the one value that is not strictly equal to itself.
\<close>

datatype jsval =
    JUndefined | JNull | JBool bool | JStr string | JNum int | JNaN | JObj nat | JFun nat
  | JBuiltin string | JObjectPrototype

text \<open>The operator \<open>a !== b\<close>.\<close>

definition strict_neq :: "jsval \<Rightarrow> jsval \<Rightarrow> bool" where
  "strict_neq a b = (a \<noteq> b \<or> a = JNaN)"

text \<open>Truthiness, as \<open>if (v)\<close> tests it.\<close>

definition truthy :: "jsval \<Rightarrow> bool" where
  "truthy v = (v \<noteq> JUndefined \<and> v \<noteq> JNull \<and> v \<noteq> JBool False \<and> v \<noteq> JStr [] \<and> v \<noteq> JNum 0
               \<and> v \<noteq> JNaN)"

text \<open>\<open>typeof v === 'object'\<close>, which holds for \<open>null\<close> too.\<close>

definition typeof_object :: "jsval \<Rightarrow> bool" where
  "typeof_object v =
     (case v of JObj a \<Rightarrow> True | JNull \<Rightarrow> True | JObjectPrototype \<Rightarrow> True | _ \<Rightarrow> False)"

text \<open>The test \<open>key != null\<close>: false for both \<open>null\<close> and \<open>undefined\<close>.\<close>

definition not_nullish :: "jsval \<Rightarrow> bool" where
  "not_nullish v = (v \<noteq> JNull \<and> v \<noteq> JUndefined)"

text \<open>
  A plain object: its own properties, in the enumeration order of
  \<open>for (const key in props)\<close>.  A JavaScript object holds each key once.  The objects that
  \<open>h\<close>, the template parser and the renderer make are object literals, so they inherit
  from \<open>Object.prototype\<close>.
\<close>

type_synonym props = "(string \<times> jsval) list"

text \<open>
  The members of \<open>Object.prototype\<close>, as the ECMAScript standard lists them (none of them
  is enumerable).  Every method is a built-in function; \<open>__proto__\<close> is an accessor that
  reads, on an object literal, as \<open>Object.prototype\<close> itself.
\<close>

definition object_prototype :: props where
  "object_prototype =
     [(''constructor'', JBuiltin ''Object''),
      (''__defineGetter__'', JBuiltin ''__defineGetter__''),
      (''__defineSetter__'', JBuiltin ''__defineSetter__''),
      (''hasOwnProperty'', JBuiltin ''hasOwnProperty''),
      (''__lookupGetter__'', JBuiltin ''__lookupGetter__''),
      (''__lookupSetter__'', JBuiltin ''__lookupSetter__''),
      (''isPrototypeOf'', JBuiltin ''isPrototypeOf''),
      (''propertyIsEnumerable'', JBuiltin ''propertyIsEnumerable''),
      (''toString'', JBuiltin ''toString''),
      (''valueOf'', JBuiltin ''valueOf''),
      (''__proto__'', JObjectPrototype),
      (''toLocaleString'', JBuiltin ''toLocaleString'')]"

text \<open>A name that every plain object inherits.\<close>

definition inherited :: "string \<Rightarrow> bool" where
  "inherited k = (map_of object_prototype k \<noteq> None)"

text \<open>
  \<open>props[key]\<close>: an own property first, then the member of \<open>Object.prototype\<close> of that
  name; a key found in neither reads as \<open>undefined\<close>.
\<close>

definition prop_get :: "props \<Rightarrow> string \<Rightarrow> jsval" where
  "prop_get ps k =
     (case map_of ps k of
        Some v \<Rightarrow> v
      | None \<Rightarrow> (case map_of object_prototype k of Some v \<Rightarrow> v | None \<Rightarrow> JUndefined))"

text \<open>\<open>key in props\<close>: true of the own properties and of the inherited members.\<close>

definition prop_in :: "string \<Rightarrow> props \<Rightarrow> bool" where
  "prop_in k ps = (map_of ps k \<noteq> None \<or> inherited k)"

text \<open>The keys that \<open>for (const key in props)\<close> visits: the own ones.\<close>

definition prop_keys :: "props \<Rightarrow> string list" where
  "prop_keys ps = map fst ps"

lemma inherited_iff:
  "inherited k \<longleftrightarrow>
     k \<in> {''constructor'', ''__defineGetter__'', ''__defineSetter__'', ''hasOwnProperty'',
          ''__lookupGetter__'', ''__lookupSetter__'', ''isPrototypeOf'', ''propertyIsEnumerable'',
          ''toString'', ''valueOf'', ''__proto__'', ''toLocaleString''}"
  by (simp add: inherited_def object_prototype_def)

lemma prop_get_own:
  "\<not> inherited k \<Longrightarrow> prop_get ps k = (case map_of ps k of None \<Rightarrow> JUndefined | Some v \<Rightarrow> v)"
  by (simp add: prop_get_def inherited_def split: option.splits)

lemma prop_in_own: "\<not> inherited k \<Longrightarrow> prop_in k ps \<longleftrightarrow> map_of ps k \<noteq> None"
  by (simp add: prop_in_def)

text \<open>\<open>arr[i]\<close>: reading past the end of an array gives \<open>undefined\<close>.\<close>

definition nth_opt :: "'a list \<Rightarrow> nat \<Rightarrow> 'a option" where
  "nth_opt xs i = (if i < length xs then Some (xs ! i) else None)"

section \<open>Virtual nodes (vdom.js)\<close>

text \<open>
  A vnode is \<open>{type, props, children, text}\<close>; \<open>text\<close> is present on the nodes made by
  \<open>createTextVNode\<close> only.  The children are vnode objects: a \<open>null\<close> child, which \<open>h\<close>
  would let through, makes \<open>createElement\<close> fail and is left out.
\<close>

datatype vnode = VNode (vtype: string) (vprops: props) (vchildren: "vnode list")
  (vtext: "string option")

definition createTextVNode :: "string \<Rightarrow> vnode" where
  "createTextVNode t = VNode ''TEXT'' [] [] (Some t)"

text \<open>
  An argument of \<open>h\<close> after flattening: a vnode object, or a primitive already
  converted by \<open>String\<close>.
\<close>

datatype hchild = Obj vnode | Prim string

definition h :: "string \<Rightarrow> props \<Rightarrow> hchild list \<Rightarrow> vnode" where
  "h type props children =
     VNode type props
       (map (\<lambda>child. case child of Obj v \<Rightarrow> v | Prim t \<Rightarrow> createTextVNode t) children) None"

datatype prop_patch = SET_PROP string jsval | REMOVE_PROP string

datatype patch =
    CREATE "vnode option"
  | REMOVE
  | REPLACE vnode
  | TEXT "string option"
  | UPDATE "prop_patch list" child_patches
and child_patches =
    Positional "patch option list"
  | Keyed "keyed_entry list"
and keyed_entry =
    KeyedEntry (entry_oldIndex: "nat option") (entry_newIndex: "nat option")
      (entry_key: jsval) (entry_patch: "patch option")

text \<open>\<open>childPatches.patches.length\<close>.\<close>

fun patches_length :: "child_patches \<Rightarrow> nat" where
  "patches_length (Positional ps) = length ps"
| "patches_length (Keyed es) = length es"

subsection \<open>diffProps\<close>

text \<open>The first loop of \<open>diffProps\<close>, over the keys of \<open>newProps\<close>.\<close>

fun diffProps_set :: "props \<Rightarrow> props \<Rightarrow> string list \<Rightarrow> prop_patch list \<Rightarrow> prop_patch list" where
  "diffProps_set oldProps newProps [] patches = patches"
| "diffProps_set oldProps newProps (k # ks) patches =
     diffProps_set oldProps newProps ks
       (if strict_neq (prop_get oldProps k) (prop_get newProps k)
        then patches @ [SET_PROP k (prop_get newProps k)]
        else patches)"

text \<open>The second loop, over the keys of \<open>oldProps\<close>.\<close>

fun diffProps_remove :: "props \<Rightarrow> string list \<Rightarrow> prop_patch list \<Rightarrow> prop_patch list" where
  "diffProps_remove newProps [] patches = patches"
| "diffProps_remove newProps (k # ks) patches =
     diffProps_remove newProps ks
       (if \<not> prop_in k newProps then patches @ [REMOVE_PROP k] else patches)"

definition diffProps :: "props \<Rightarrow> props \<Rightarrow> prop_patch list" where
  "diffProps oldProps newProps =
     diffProps_remove newProps (prop_keys oldProps)
       (diffProps_set oldProps newProps (prop_keys newProps) [])"

subsection \<open>diffChildren\<close>

text \<open>\<open>c?.props?.key\<close>.\<close>

definition child_key :: "vnode \<Rightarrow> jsval" where
  "child_key c = prop_get (vprops c) ''key''"

lemma child_key_own:
  "child_key c = (case map_of (vprops c) ''key'' of None \<Rightarrow> JUndefined | Some v \<Rightarrow> v)"
  by (simp add: child_key_def prop_get_own inherited_iff)

text \<open>
  The loops of \<open>diffChildren\<close> call \<open>diff\<close>; they take it as the parameter \<open>d\<close>, and
  \<open>diff\<close> below ties the knot.  The warnings that \<open>diffChildren\<close> prints once are left to
  the section on \<open>diff_w\<close>, which shows that they never change the result.
\<close>

function positional_loop ::
  "(vnode option \<Rightarrow> vnode option \<Rightarrow> patch option) \<Rightarrow> vnode list \<Rightarrow> vnode list \<Rightarrow>
   nat \<Rightarrow> nat \<Rightarrow> patch option list \<Rightarrow> patch option list" where
  "positional_loop d oldChildren newChildren i maxLength patches =
     (if i < maxLength
      then positional_loop d oldChildren newChildren (Suc i) maxLength
             (patches @ [d (nth_opt oldChildren i) (nth_opt newChildren i)])
      else patches)"
  by pat_completeness auto
termination
  by (relation "measure (\<lambda>(d, oldChildren, newChildren, i, maxLength, patches). maxLength - i)") auto

declare positional_loop.simps [simp del]

text \<open>\<open>oldChildren.forEach((child, i) => ...)\<close> filling \<open>oldKeyMap\<close>.\<close>

fun oldKeyMap_loop ::
  "vnode list \<Rightarrow> nat \<Rightarrow> (jsval \<rightharpoonup> vnode \<times> nat) \<Rightarrow> (jsval \<rightharpoonup> vnode \<times> nat)" where
  "oldKeyMap_loop [] i oldKeyMap = oldKeyMap"
| "oldKeyMap_loop (child # rest) i oldKeyMap =
     oldKeyMap_loop rest (Suc i)
       (if not_nullish (child_key child) then oldKeyMap(child_key child \<mapsto> (child, i))
        else oldKeyMap)"

text \<open>
  \<open>newChildren.forEach((newChild, newIndex) => ...)\<close>, carrying \<open>patches\<close> and
  \<open>usedOldIndices\<close>.
\<close>

fun keyed_new_loop ::
  "(vnode option \<Rightarrow> vnode option \<Rightarrow> patch option) \<Rightarrow> (jsval \<rightharpoonup> vnode \<times> nat) \<Rightarrow>
   vnode list \<Rightarrow> nat \<Rightarrow> keyed_entry list \<times> nat set \<Rightarrow> keyed_entry list \<times> nat set" where
  "keyed_new_loop d oldKeyMap [] newIndex acc = acc"
| "keyed_new_loop d oldKeyMap (newChild # rest) newIndex (patches, usedOldIndices) =
     (let k = child_key newChild;
          oldEntry = (if not_nullish k then oldKeyMap k else None)
      in case oldEntry of
           Some (child, index) \<Rightarrow>
             keyed_new_loop d oldKeyMap rest (Suc newIndex)
               (patches @ [KeyedEntry (Some index) (Some newIndex) k
                             (d (Some child) (Some newChild))],
                insert index usedOldIndices)
         | None \<Rightarrow>
             keyed_new_loop d oldKeyMap rest (Suc newIndex)
               (patches @ [KeyedEntry None (Some newIndex) k (Some (CREATE (Some newChild)))],
                usedOldIndices))"

text \<open>The last \<open>oldChildren.forEach\<close>, pushing the removals.\<close>

fun keyed_remove_loop ::
  "vnode list \<Rightarrow> nat \<Rightarrow> nat set \<Rightarrow> keyed_entry list \<Rightarrow> keyed_entry list" where
  "keyed_remove_loop [] i usedOldIndices patches = patches"
| "keyed_remove_loop (child # rest) i usedOldIndices patches =
     keyed_remove_loop rest (Suc i) usedOldIndices
       (if i \<notin> usedOldIndices
        then patches @ [KeyedEntry (Some i) None (child_key child) (Some REMOVE)]
        else patches)"

definition keyedCount :: "vnode list \<Rightarrow> nat" where
  "keyedCount newChildren = length (filter (\<lambda>c. not_nullish (child_key c)) newChildren)"

definition allKeyed :: "vnode list \<Rightarrow> bool" where
  "allKeyed newChildren = (keyedCount newChildren = length newChildren)"

definition diffChildren_with ::
  "(vnode option \<Rightarrow> vnode option \<Rightarrow> patch option) \<Rightarrow> vnode list \<Rightarrow> vnode list \<Rightarrow>
   child_patches" where
  "diffChildren_with d oldChildren newChildren =
     (if \<not> allKeyed newChildren
      then Positional
             (positional_loop d oldChildren newChildren 0
                (max (length oldChildren) (length newChildren)) [])
      else
        let oldKeyMap = oldKeyMap_loop oldChildren 0 Map.empty;
            (patches, usedOldIndices) = keyed_new_loop d oldKeyMap newChildren 0 ([], {})
        in Keyed (keyed_remove_loop oldChildren 0 usedOldIndices patches))"


text \<open>What the loops compute, as maps over the indices.\<close>

lemma upt_add_Suc: "[i..<i + Suc n] = i # [Suc i..<Suc i + n]"
  using upt_conv_Cons [of i "i + Suc n"] by simp

lemma positional_loop_map:
  "positional_loop d old new i m acc =
     acc @ map (\<lambda>j. d (nth_opt old j) (nth_opt new j)) [i..<m]"
proof (induction d old new i m acc rule: positional_loop.induct)
  case (1 d old new i m acc)
  show ?case
  proof (cases "i < m")
    case True
    then show ?thesis
      using 1 by (subst positional_loop.simps) (simp add: upt_conv_Cons)
  next
    case False
    then show ?thesis by (subst positional_loop.simps) simp
  qed
qed

text \<open>
  \<open>key != null ? oldKeyMap.get(key) : null\<close>, and the record pushed for one new child.
\<close>

definition lookup_entry :: "(jsval \<rightharpoonup> vnode \<times> nat) \<Rightarrow> vnode \<Rightarrow> (vnode \<times> nat) option" where
  "lookup_entry oldKeyMap newChild =
     (if not_nullish (child_key newChild) then oldKeyMap (child_key newChild) else None)"

definition keyed_entry_for ::
  "(vnode option \<Rightarrow> vnode option \<Rightarrow> patch option) \<Rightarrow> (jsval \<rightharpoonup> vnode \<times> nat) \<Rightarrow>
   nat \<Rightarrow> vnode \<Rightarrow> keyed_entry" where
  "keyed_entry_for d oldKeyMap newIndex newChild =
     (case lookup_entry oldKeyMap newChild of
        Some (child, index) \<Rightarrow>
          KeyedEntry (Some index) (Some newIndex) (child_key newChild)
            (d (Some child) (Some newChild))
      | None \<Rightarrow>
          KeyedEntry None (Some newIndex) (child_key newChild) (Some (CREATE (Some newChild))))"

text \<open>The old indices that the loop over the new children adds to \<open>usedOldIndices\<close>.\<close>

definition matched_indices :: "(jsval \<rightharpoonup> vnode \<times> nat) \<Rightarrow> vnode list \<Rightarrow> nat set" where
  "matched_indices oldKeyMap newChildren =
     {index. \<exists>newChild \<in> set newChildren. \<exists>child. lookup_entry oldKeyMap newChild = Some (child, index)}"

lemma keyed_new_loop_map:
  "keyed_new_loop d m new i (ps, used) =
     (ps @ map (\<lambda>(j, c). keyed_entry_for d m j c) (zip [i..<i + length new] new),
      used \<union> matched_indices m new)"
proof (induction new arbitrary: i ps used)
  case Nil
  then show ?case by (simp add: matched_indices_def)
next
  case (Cons c cs)
  have upt: "[i..<i + length (c # cs)] = i # [Suc i..<Suc i + length cs]"
    using upt_add_Suc [of i "length cs"] by simp
  have mi: "matched_indices m (c # cs) =
     (case lookup_entry m c of None \<Rightarrow> {} | Some (child, index) \<Rightarrow> {index}) \<union> matched_indices m cs"
    by (auto simp: matched_indices_def split: option.splits)
  show ?case
    unfolding upt mi
    by (cases "lookup_entry m c")
       (auto simp: Cons.IH keyed_entry_for_def lookup_entry_def Let_def split: option.splits if_splits)
qed

lemma keyed_remove_loop_map:
  "keyed_remove_loop old i used ps =
     ps @ map (\<lambda>(j, c). KeyedEntry (Some j) None (child_key c) (Some REMOVE))
            (filter (\<lambda>(j, c). j \<notin> used) (zip [i..<i + length old] old))"
proof (induction old arbitrary: i ps)
  case Nil
  then show ?case by simp
next
  case (Cons c cs)
  have upt: "[i..<i + length (c # cs)] = i # [Suc i..<Suc i + length cs]"
    using upt_add_Suc [of i "length cs"] by simp
  show ?case unfolding upt by (simp add: Cons.IH)
qed

text \<open>
  \<open>diffChildren\<close> calls \<open>diff\<close> on the new children and on \<open>undefined\<close> only; this is
  what makes the recursion of \<open>diff\<close> well-founded.
\<close>

lemma diffChildren_with_cong [fundef_cong]:
  assumes "old = old'" "new = new'"
    and "\<And>ov n. n \<in> set new' \<Longrightarrow> d ov (Some n) = d' ov (Some n)"
    and "\<And>ov. d ov None = d' ov None"
  shows "diffChildren_with d old new = diffChildren_with d' old' new'"
proof -
  have pos: "map (\<lambda>j. d (nth_opt old' j) (nth_opt new' j)) [0..<k]
      = map (\<lambda>j. d' (nth_opt old' j) (nth_opt new' j)) [0..<k]" for k
    using assms(3,4) by (auto simp: nth_opt_def)
  have ent: "map (\<lambda>(j, c). keyed_entry_for d m j c) (zip [0..<0 + length new'] new')
      = map (\<lambda>(j, c). keyed_entry_for d' m j c) (zip [0..<0 + length new'] new')" for m
    using assms(3) by (auto simp: keyed_entry_for_def dest!: set_zip_rightD split: option.splits)
  show ?thesis
    unfolding diffChildren_with_def assms(1,2) positional_loop_map keyed_new_loop_map ent pos
    by simp
qed

subsection \<open>diff\<close>

text \<open>
  An absent vnode (\<open>undefined\<close>) is \<open>None\<close>.  Two vnodes are both objects, so of the test
  \<open>typeof oldVNode !== typeof newVNode || oldVNode.type !== newVNode.type\<close> the comparison of
  the types remains.
\<close>

function diff :: "vnode option \<Rightarrow> vnode option \<Rightarrow> patch option" where
  "diff None newVNode = Some (CREATE newVNode)"
| "diff (Some oldVNode) None = Some REMOVE"
| "diff (Some oldVNode) (Some newVNode) =
     (if vtype oldVNode \<noteq> vtype newVNode then Some (REPLACE newVNode)
      else if vtype oldVNode = ''TEXT'' then
        (if vtext oldVNode \<noteq> vtext newVNode then Some (TEXT (vtext newVNode)) else None)
      else
        let propPatches = diffProps (vprops oldVNode) (vprops newVNode);
            childPatches = diffChildren_with diff (vchildren oldVNode) (vchildren newVNode)
        in if length propPatches > 0 \<or> patches_length childPatches > 0
           then Some (UPDATE propPatches childPatches)
           else None)"
  by pat_completeness auto
termination
proof (relation "measure (\<lambda>(ov, nv). case nv of None \<Rightarrow> 0 | Some v \<Rightarrow> size v)")
  show "wf (measure (\<lambda>(ov, nv). case nv of None \<Rightarrow> 0 | Some v \<Rightarrow> size v))" by simp
next
  fix oldVNode newVNode :: vnode and x :: "prop_patch list" and z :: "vnode option" and n :: vnode
  assume "n \<in> set (vchildren newVNode)"
  then have "size n < size newVNode"
    by (cases newVNode) (auto simp: less_Suc_eq_le dest: size_list_estimation')
  then show "((z, Some n), Some oldVNode, Some newVNode)
       \<in> measure (\<lambda>(ov, nv). case nv of None \<Rightarrow> 0 | Some v \<Rightarrow> size v)" by simp
next
  fix oldVNode newVNode :: vnode and x :: "prop_patch list" and z :: "vnode option"
  show "((z, None), Some oldVNode, Some newVNode)
       \<in> measure (\<lambda>(ov, nv). case nv of None \<Rightarrow> 0 | Some v \<Rightarrow> size v)"
    by (cases newVNode) simp
qed


declare diff.simps(3) [simp del]

definition diffChildren :: "vnode list \<Rightarrow> vnode list \<Rightarrow> child_patches" where
  "diffChildren = diffChildren_with diff"

section \<open>Properties of the differ\<close>

lemma diff_nodes:
  "diff (Some oldVNode) (Some newVNode) =
     (if vtype oldVNode \<noteq> vtype newVNode then Some (REPLACE newVNode)
      else if vtype oldVNode = ''TEXT'' then
        (if vtext oldVNode \<noteq> vtext newVNode then Some (TEXT (vtext newVNode)) else None)
      else
        let propPatches = diffProps (vprops oldVNode) (vprops newVNode);
            childPatches = diffChildren (vchildren oldVNode) (vchildren newVNode)
        in if length propPatches > 0 \<or> patches_length childPatches > 0
           then Some (UPDATE propPatches childPatches)
           else None)"
  by (simp add: diffChildren_def diff.simps(3))

lemma diffChildren_positional:
  "\<not> allKeyed newChildren \<Longrightarrow>
   diffChildren oldChildren newChildren =
     Positional (map (\<lambda>i. diff (nth_opt oldChildren i) (nth_opt newChildren i))
                  [0..<max (length oldChildren) (length newChildren)])"
  by (simp add: diffChildren_def diffChildren_with_def positional_loop_map)

text \<open>
  Claim C7.  Two vnodes of different types are never reconciled: whatever their props and
  children are, and also when exactly one of them is a TEXT node, \<open>diff\<close> returns the
  patch \<open>REPLACE\<close> carrying the new vnode.
\<close>

theorem diff_kind_mismatch_replace:
  "vtype n1 \<noteq> vtype n2 \<Longrightarrow> diff (Some n1) (Some n2) = Some (REPLACE n2)"
  by (simp add: diff_nodes)

theorem diff_kind_mismatch_replace_witness:
  "vtype (h ''div'' [(''id'', JStr ''a'')] [Prim ''Hello'']) \<noteq> vtype (createTextVNode ''Hello'')
   \<and> diff (Some (h ''div'' [(''id'', JStr ''a'')] [Prim ''Hello''])) (Some (createTextVNode ''Hello''))
       = Some (REPLACE (createTextVNode ''Hello''))"
proof -
  have ne: "vtype (h ''div'' [(''id'', JStr ''a'')] [Prim ''Hello'']) \<noteq> vtype (createTextVNode ''Hello'')"
    by (simp add: h_def createTextVNode_def)
  from diff_kind_mismatch_replace [OF ne] ne show ?thesis by simp
qed


lemma allKeyed_iff: "allKeyed cs \<longleftrightarrow> (\<forall>c \<in> set cs. not_nullish (child_key c))"
  unfolding allKeyed_def keyedCount_def
  by (metis filter_True length_filter_less less_irrefl_nat filter_id_conv)

text \<open>
  Claim C5.  When some new child has no key (none of them, or only some of them), the
  result of \<open>diffChildren\<close> is the positional list: entry \<open>i\<close> is
  \<open>diff(oldChildren[i], newChildren[i])\<close> for every \<open>i\<close> below the longer of the two lengths.
  The text children B, C, D against A, B, C, D give four patches: three text changes and
  the creation of D.
\<close>

theorem diffChildren_positional_fallback:
  "(\<not> (\<forall>c \<in> set newChildren. not_nullish (child_key c)) \<longrightarrow>
      diffChildren oldChildren newChildren =
        Positional (map (\<lambda>i. diff (nth_opt oldChildren i) (nth_opt newChildren i))
                     [0..<max (length oldChildren) (length newChildren)]))
   \<and> diffChildren (map createTextVNode [''B'', ''C'', ''D''])
         (map createTextVNode [''A'', ''B'', ''C'', ''D''])
       = Positional [Some (TEXT (Some ''A'')), Some (TEXT (Some ''B'')), Some (TEXT (Some ''C'')),
                     Some (CREATE (Some (createTextVNode ''D'')))]"
proof
  show "\<not> (\<forall>c \<in> set newChildren. not_nullish (child_key c)) \<longrightarrow>
      diffChildren oldChildren newChildren =
        Positional (map (\<lambda>i. diff (nth_opt oldChildren i) (nth_opt newChildren i))
                     [0..<max (length oldChildren) (length newChildren)])"
    using diffChildren_positional [of newChildren oldChildren] by (simp add: allKeyed_iff)
  show "diffChildren (map createTextVNode [''B'', ''C'', ''D''])
         (map createTextVNode [''A'', ''B'', ''C'', ''D''])
       = Positional [Some (TEXT (Some ''A'')), Some (TEXT (Some ''B'')), Some (TEXT (Some ''C'')),
                     Some (CREATE (Some (createTextVNode ''D'')))]"
    by code_simp
qed


theorem diffChildren_positional_fallback_witness:
  "\<not> not_nullish (child_key (h ''p'' [] []))
   \<and> diffChildren [h ''li'' [(''key'', JStr ''b'')] [], h ''li'' [] [], h ''li'' [] []]
        [h ''li'' [(''key'', JStr ''a'')] [], h ''p'' [] []]
      = Positional [Some (UPDATE [SET_PROP ''key'' (JStr ''a'')] (Keyed [])),
                    Some (REPLACE (h ''p'' [] [])), Some REMOVE]"
proof -
  have nk: "\<not> (\<forall>c \<in> set [h ''li'' [(''key'', JStr ''a'')] [], h ''p'' [] []]. not_nullish (child_key c))"
    by (simp add: h_def child_key_own not_nullish_def)
  have "diffChildren [h ''li'' [(''key'', JStr ''b'')] [], h ''li'' [] [], h ''li'' [] []]
        [h ''li'' [(''key'', JStr ''a'')] [], h ''p'' [] []]
     = Positional (map (\<lambda>i. diff (nth_opt [h ''li'' [(''key'', JStr ''b'')] [], h ''li'' [] [], h ''li'' [] []] i)
          (nth_opt [h ''li'' [(''key'', JStr ''a'')] [], h ''p'' [] []] i))
            [0..<max (length [h ''li'' [(''key'', JStr ''b'')] [], h ''li'' [] [], h ''li'' [] []])
               (length [h ''li'' [(''key'', JStr ''a'')] [], h ''p'' [] []])])"
    using diffChildren_positional_fallback [THEN conjunct1, rule_format, OF nk] .
  also have "\<dots> = Positional [Some (UPDATE [SET_PROP ''key'' (JStr ''a'')] (Keyed [])),
                    Some (REPLACE (h ''p'' [] [])), Some REMOVE]"
    by code_simp
  finally show ?thesis by (simp add: h_def child_key_own not_nullish_def)
qed


subsection \<open>Attribute patches\<close>

lemma diffProps_set_eq:
  "diffProps_set old new ks acc =
     acc @ map (\<lambda>k. SET_PROP k (prop_get new k))
             (filter (\<lambda>k. strict_neq (prop_get old k) (prop_get new k)) ks)"
  by (induction ks arbitrary: acc) auto

lemma diffProps_remove_eq:
  "diffProps_remove new ks acc = acc @ map REMOVE_PROP (filter (\<lambda>k. \<not> prop_in k new) ks)"
  by (induction ks arbitrary: acc) auto

lemma diffProps_eq:
  "diffProps old new =
     map (\<lambda>k. SET_PROP k (prop_get new k))
       (filter (\<lambda>k. strict_neq (prop_get old k) (prop_get new k)) (prop_keys new))
     @ map REMOVE_PROP (filter (\<lambda>k. \<not> prop_in k new) (prop_keys old))"
  by (simp add: diffProps_def diffProps_set_eq diffProps_remove_eq)

text \<open>\<open>Object.prototype.hasOwnProperty\<close>: the key is one of the object's own keys.\<close>

definition has_own :: "string \<Rightarrow> props \<Rightarrow> bool" where
  "has_own k ps = (map_of ps k \<noteq> None)"

lemma has_own_keys: "has_own k ps \<longleftrightarrow> k \<in> set (prop_keys ps)"
  by (simp add: has_own_def prop_keys_def map_of_eq_None_iff)

lemma prop_in_has_own: "\<not> inherited k \<Longrightarrow> prop_in k ps \<longleftrightarrow> has_own k ps"
  by (simp add: prop_in_def has_own_def)

lemma prop_get_absent: "\<not> inherited k \<Longrightarrow> \<not> has_own k ps \<Longrightarrow> prop_get ps k = JUndefined"
  by (simp add: has_own_def prop_get_own)

lemma strict_neq_undefined: "strict_neq JUndefined v \<longleftrightarrow> v \<noteq> JUndefined"
  by (auto simp: strict_neq_def)

lemma patches_length_diffChildren: "length new \<le> patches_length (diffChildren old new)"
proof (cases "\<forall>c \<in> set new. not_nullish (child_key c)")
  case True
  then have "allKeyed new" by (simp add: allKeyed_iff)
  then show ?thesis
    by (simp add: diffChildren_def diffChildren_with_def keyed_new_loop_map
          keyed_remove_loop_map Let_def)
next
  case False
  then have "\<not> allKeyed new" by (simp add: allKeyed_iff)
  then show ?thesis by (simp add: diffChildren_positional)
qed

text \<open>
  Claim C1 (the code departs from it).  Diffing a node against itself gives the no-op
  only when the node has no children: the child patch list has one entry per child, an
  entry that is itself a no-op still counts in \<open>childPatches.patches.length\<close>, and so every
  element with a child yields an \<open>UPDATE\<close> patch.  For the element \<open>li\<close> with the one text
  child \<open>Learn JS\<close> the result is \<open>UPDATE\<close> with no attribute patch and the positional
  list holding one no-op.
\<close>

theorem diff_same_node_with_child_is_update:
  "(vtype n \<noteq> ''TEXT'' \<and> vchildren n \<noteq> [] \<longrightarrow>
      diff (Some n) (Some n)
        = Some (UPDATE (diffProps (vprops n) (vprops n)) (diffChildren (vchildren n) (vchildren n))))
   \<and> diff (Some (h ''li'' [] [Prim ''Learn JS''])) (Some (h ''li'' [] [Prim ''Learn JS'']))
       = Some (UPDATE [] (Positional [None]))"
proof
  show "vtype n \<noteq> ''TEXT'' \<and> vchildren n \<noteq> [] \<longrightarrow>
      diff (Some n) (Some n)
        = Some (UPDATE (diffProps (vprops n) (vprops n)) (diffChildren (vchildren n) (vchildren n)))"
  proof
    assume a: "vtype n \<noteq> ''TEXT'' \<and> vchildren n \<noteq> []"
    have "0 < patches_length (diffChildren (vchildren n) (vchildren n))"
      using a patches_length_diffChildren [of "vchildren n" "vchildren n"]
      by (cases "vchildren n") auto
    with a show "diff (Some n) (Some n)
        = Some (UPDATE (diffProps (vprops n) (vprops n)) (diffChildren (vchildren n) (vchildren n)))"
      by (simp add: diff_nodes Let_def)
  qed
  show "diff (Some (h ''li'' [] [Prim ''Learn JS''])) (Some (h ''li'' [] [Prim ''Learn JS'']))
       = Some (UPDATE [] (Positional [None]))"
    by code_simp
qed

theorem diff_same_node_with_child_is_update_witness:
  "vtype (h ''ul'' [] [Obj (h ''li'' [(''key'', JStr ''a'')] [])]) \<noteq> ''TEXT''
   \<and> vchildren (h ''ul'' [] [Obj (h ''li'' [(''key'', JStr ''a'')] [])]) \<noteq> []
   \<and> diff (Some (h ''ul'' [] [Obj (h ''li'' [(''key'', JStr ''a'')] [])]))
          (Some (h ''ul'' [] [Obj (h ''li'' [(''key'', JStr ''a'')] [])]))
       = Some (UPDATE [] (Keyed [KeyedEntry (Some 0) (Some 0) (JStr ''a'') None]))"
proof -
  let ?n = "h ''ul'' [] [Obj (h ''li'' [(''key'', JStr ''a'')] [])]"
  have a: "vtype ?n \<noteq> ''TEXT'' \<and> vchildren ?n \<noteq> []" by (simp add: h_def)
  have "diff (Some ?n) (Some ?n)
      = Some (UPDATE (diffProps (vprops ?n) (vprops ?n)) (diffChildren (vchildren ?n) (vchildren ?n)))"
    using diff_same_node_with_child_is_update [THEN conjunct1, rule_format, OF a] .
  also have "\<dots> = Some (UPDATE [] (Keyed [KeyedEntry (Some 0) (Some 0) (JStr ''a'') None]))"
    by code_simp
  finally show ?thesis using a by simp
qed

text \<open>
  Claim C6 (amended).  For every key that is not the name of a member of
  \<open>Object.prototype\<close>: \<open>diffProps\<close> emits \<open>SET_PROP(key, value)\<close> exactly when the key is a
  key of the new props whose value is not strictly equal to what \<open>oldProps[key]\<close> reads,
  and a key that the old props lack reads as \<open>undefined\<close>, so that such a key gets its
  \<open>SET_PROP\<close> unless the new value is \<open>undefined\<close> too; it emits \<open>REMOVE_PROP(key)\<close> exactly
  when the key is a key of the old props that the new props lack.  For two nodes of the
  same type other than TEXT the list that \<open>diffProps\<close> returns is the attribute part of the
  \<open>UPDATE\<close> patch, and the \<open>li\<close> element whose \<open>className\<close> goes from the empty string to
  \<open>completed\<close> over an unchanged text child gives \<open>UPDATE\<close> with that one \<open>SET_PROP\<close> and the
  positional list holding one no-op.
\<close>

theorem diffProps_sets_and_unsets:
  "(\<not> inherited k \<longrightarrow>
      (SET_PROP k v \<in> set (diffProps oldProps newProps) \<longleftrightarrow>
         has_own k newProps \<and> v = prop_get newProps k
         \<and> (if has_own k oldProps then strict_neq (prop_get oldProps k) v else v \<noteq> JUndefined))
      \<and> (REMOVE_PROP k \<in> set (diffProps oldProps newProps) \<longleftrightarrow>
           has_own k oldProps \<and> \<not> has_own k newProps))
   \<and> (vtype n1 = vtype n2 \<and> vtype n1 \<noteq> ''TEXT'' \<longrightarrow>
        diff (Some n1) (Some n2)
          = (if diffProps (vprops n1) (vprops n2) = []
                \<and> patches_length (diffChildren (vchildren n1) (vchildren n2)) = 0
             then None
             else Some (UPDATE (diffProps (vprops n1) (vprops n2))
                          (diffChildren (vchildren n1) (vchildren n2)))))
   \<and> diff (Some (h ''li'' [(''className'', JStr [])] [Prim ''Learn JS'']))
          (Some (h ''li'' [(''className'', JStr ''completed'')] [Prim ''Learn JS'']))
       = Some (UPDATE [SET_PROP ''className'' (JStr ''completed'')] (Positional [None]))"
proof (intro conjI impI)
  assume ni: "\<not> inherited k"
  show "SET_PROP k v \<in> set (diffProps oldProps newProps) \<longleftrightarrow>
         has_own k newProps \<and> v = prop_get newProps k
         \<and> (if has_own k oldProps then strict_neq (prop_get oldProps k) v else v \<noteq> JUndefined)"
    using ni
    by (auto simp: diffProps_eq has_own_keys [symmetric] prop_get_absent strict_neq_undefined)
  show "REMOVE_PROP k \<in> set (diffProps oldProps newProps) \<longleftrightarrow>
           has_own k oldProps \<and> \<not> has_own k newProps"
    using ni by (auto simp: diffProps_eq has_own_keys [symmetric] prop_in_has_own)
next
  assume "vtype n1 = vtype n2 \<and> vtype n1 \<noteq> ''TEXT''"
  then show "diff (Some n1) (Some n2)
          = (if diffProps (vprops n1) (vprops n2) = []
                \<and> patches_length (diffChildren (vchildren n1) (vchildren n2)) = 0
             then None
             else Some (UPDATE (diffProps (vprops n1) (vprops n2))
                          (diffChildren (vchildren n1) (vchildren n2))))"
    by (auto simp: diff_nodes Let_def)
next
  show "diff (Some (h ''li'' [(''className'', JStr [])] [Prim ''Learn JS'']))
          (Some (h ''li'' [(''className'', JStr ''completed'')] [Prim ''Learn JS'']))
       = Some (UPDATE [SET_PROP ''className'' (JStr ''completed'')] (Positional [None]))"
    by code_simp
qed

theorem diffProps_sets_and_unsets_witness:
  "\<not> inherited ''className''
   \<and> has_own ''className'' [(''className'', JStr ''completed''), (''title'', JUndefined)]
   \<and> has_own ''className'' [(''className'', JStr []), (''id'', JStr ''x'')]
   \<and> strict_neq (prop_get [(''className'', JStr []), (''id'', JStr ''x'')] ''className'')
        (JStr ''completed'')
   \<and> SET_PROP ''className'' (JStr ''completed'')
        \<in> set (diffProps [(''className'', JStr []), (''id'', JStr ''x'')]
                  [(''className'', JStr ''completed''), (''title'', JUndefined)])
   \<and> \<not> inherited ''id''
   \<and> has_own ''id'' [(''className'', JStr []), (''id'', JStr ''x'')]
   \<and> \<not> has_own ''id'' [(''className'', JStr ''completed''), (''title'', JUndefined)]
   \<and> REMOVE_PROP ''id''
        \<in> set (diffProps [(''className'', JStr []), (''id'', JStr ''x'')]
                  [(''className'', JStr ''completed''), (''title'', JUndefined)])"
proof -
  let ?old = "[(''className'', JStr []), (''id'', JStr ''x'')]"
  let ?new = "[(''className'', JStr ''completed''), (''title'', JUndefined)]"
  have n1: "\<not> inherited ''className''" by (simp add: inherited_iff)
  have n2: "\<not> inherited ''id''" by (simp add: inherited_iff)
  have a: "has_own ''className'' ?new" by (simp add: has_own_def)
  have b: "has_own ''className'' ?old" by (simp add: has_own_def)
  have c: "strict_neq (prop_get ?old ''className'') (JStr ''completed'')"
    by (simp add: prop_get_own n1 strict_neq_def)
  have d: "JStr ''completed'' = prop_get ?new ''className''"
    by (simp add: prop_get_own n1)
  have e: "has_own ''id'' ?old" by (simp add: has_own_def)
  have f: "\<not> has_own ''id'' ?new" by (simp add: has_own_def)
  from diffProps_sets_and_unsets
         [where k = "''className''" and v = "JStr ''completed''"
            and oldProps = ?old and newProps = ?new,
          THEN conjunct1, THEN mp, OF n1, THEN conjunct1]
       a b c d
  have g: "SET_PROP ''className'' (JStr ''completed'') \<in> set (diffProps ?old ?new)" by simp
  from diffProps_sets_and_unsets
         [where k = "''id''" and oldProps = ?old and newProps = ?new,
          THEN conjunct1, THEN mp, OF n2, THEN conjunct2]
       e f
  have i: "REMOVE_PROP ''id'' \<in> set (diffProps ?old ?new)" by simp
  from n1 n2 a b c e f g i show ?thesis by simp
qed

text \<open>
  The claim as it was stated fails for a key that the old props lack and whose new value
  is \<open>undefined\<close>: no \<open>SET_PROP\<close> is emitted, and the two elements diff to the no-op.
\<close>

theorem diffProps_undefined_counterexample:
  "has_own ''title'' [(''title'', JUndefined)] \<and> \<not> has_own ''title'' []
   \<and> SET_PROP ''title'' JUndefined \<notin> set (diffProps [] [(''title'', JUndefined)])
   \<and> diff (Some (h ''div'' [] [])) (Some (h ''div'' [(''title'', JUndefined)] [])) = None"
  by code_simp

text \<open>
  For a name that every object inherits, the tests \<open>oldProps[key]\<close> and \<open>key in newProps\<close>
  see the member of \<open>Object.prototype\<close>: the old attribute \<open>toString\<close> is not removed
  although the new props lack it, while \<open>id\<close> is.
\<close>

lemma diffProps_inherited_name:
  "diffProps [(''toString'', JStr ''x''), (''id'', JStr ''y'')] [] = [REMOVE_PROP ''id'']"
  by code_simp

subsection \<open>Keyed children\<close>

text \<open>
  The old child that \<open>oldKeyMap\<close> holds for a key: the last old child carrying it
  (a later \<open>oldKeyMap.set\<close> overwrites an earlier one).
\<close>


lemma oldKeyMap_loop_snoc:
  "oldKeyMap_loop (xs @ [x]) i m =
     (if not_nullish (child_key x)
      then (oldKeyMap_loop xs i m)(child_key x \<mapsto> (x, i + length xs))
      else oldKeyMap_loop xs i m)"
  by (induction xs arbitrary: i m) auto

definition matching_old :: "vnode list \<Rightarrow> jsval \<Rightarrow> nat option" where
  "matching_old oldChildren k =
     (case filter (\<lambda>i. child_key (oldChildren ! i) = k) (rev [0..<length oldChildren]) of
        [] \<Rightarrow> None
      | i # _ \<Rightarrow> Some i)"

lemma matching_old_snoc:
  "matching_old (xs @ [x]) k =
     (if child_key x = k then Some (length xs) else matching_old xs k)"
proof -
  have "filter (\<lambda>i. child_key ((xs @ [x]) ! i) = k) (rev [0..<length xs])
      = filter (\<lambda>i. child_key (xs ! i) = k) (rev [0..<length xs])"
    by (rule filter_cong) (auto simp: nth_append)
  then show ?thesis by (simp add: matching_old_def)
qed

lemma matching_old_Some:
  "matching_old old k = Some i \<Longrightarrow> i < length old \<and> child_key (old ! i) = k"
proof (induction old rule: rev_induct)
  case Nil
  then show ?case by (simp add: matching_old_def)
next
  case (snoc x xs)
  then show ?case by (auto simp: matching_old_snoc nth_append split: if_splits)
qed

lemma matching_old_None:
  "matching_old old k = None \<longleftrightarrow> (\<forall>c \<in> set old. child_key c \<noteq> k)"
proof (induction old rule: rev_induct)
  case Nil
  then show ?case by (simp add: matching_old_def)
next
  case (snoc x xs)
  then show ?case by (auto simp: matching_old_snoc)
qed

lemma matching_old_last:
  "matching_old old k = Some i \<Longrightarrow> i < j \<Longrightarrow> j < length old \<Longrightarrow> child_key (old ! j) \<noteq> k"
proof (induction old rule: rev_induct)
  case Nil
  then show ?case by simp
next
  case (snoc x xs)
  then show ?case
    by (auto simp: matching_old_snoc nth_append less_Suc_eq split: if_splits)
qed

lemma oldKeyMap_matching_old:
  "not_nullish k \<Longrightarrow>
   oldKeyMap_loop old 0 Map.empty k = map_option (\<lambda>i. (old ! i, i)) (matching_old old k)"
proof (induction old rule: rev_induct)
  case Nil
  then show ?case by (simp add: matching_old_def)
next
  case (snoc x xs)
  show ?case
  proof (cases "child_key x = k")
    case True
    with snoc.prems show ?thesis
      by (simp add: oldKeyMap_loop_snoc matching_old_snoc)
  next
    case False
    have "matching_old xs k = Some i \<Longrightarrow> (xs @ [x]) ! i = xs ! i" for i
      by (auto dest!: matching_old_Some simp: nth_append)
    with False snoc show ?thesis
      by (cases "matching_old xs k") (auto simp: oldKeyMap_loop_snoc matching_old_snoc)
  qed
qed



text \<open>The record of one new child, and the old indices that some new child matches.\<close>

definition keyed_record :: "vnode list \<Rightarrow> nat \<Rightarrow> vnode \<Rightarrow> keyed_entry" where
  "keyed_record oldChildren newIndex newChild =
     (case matching_old oldChildren (child_key newChild) of
        Some oldIndex \<Rightarrow>
          KeyedEntry (Some oldIndex) (Some newIndex) (child_key newChild)
            (diff (Some (oldChildren ! oldIndex)) (Some newChild))
      | None \<Rightarrow>
          KeyedEntry None (Some newIndex) (child_key newChild) (Some (CREATE (Some newChild))))"

definition consumed :: "vnode list \<Rightarrow> vnode list \<Rightarrow> nat set" where
  "consumed oldChildren newChildren =
     {i. \<exists>c \<in> set newChildren. matching_old oldChildren (child_key c) = Some i}"

lemma zip_upt_nth: "zip [0..<length xs] xs = map (\<lambda>i. (i, xs ! i)) [0..<length xs]"
  by (rule nth_equalityI) auto

lemma lookup_entry_matching_old:
  "not_nullish (child_key c) \<Longrightarrow>
   lookup_entry (oldKeyMap_loop old 0 Map.empty) c
     = map_option (\<lambda>i. (old ! i, i)) (matching_old old (child_key c))"
  by (simp add: lookup_entry_def oldKeyMap_matching_old)

lemma keyed_entry_for_record:
  "not_nullish (child_key c) \<Longrightarrow>
   keyed_entry_for diff (oldKeyMap_loop old 0 Map.empty) j c = keyed_record old j c"
  by (simp add: keyed_entry_for_def keyed_record_def lookup_entry_matching_old
           split: option.splits)

lemma matched_indices_consumed:
  "\<forall>c \<in> set new. not_nullish (child_key c) \<Longrightarrow>
   matched_indices (oldKeyMap_loop old 0 Map.empty) new = consumed old new"
  by (auto simp: matched_indices_def consumed_def lookup_entry_matching_old)

lemma diffChildren_keyed:
  assumes "\<forall>c \<in> set new. not_nullish (child_key c)"
  shows "diffChildren old new =
     Keyed (map (\<lambda>newIndex. keyed_record old newIndex (new ! newIndex)) [0..<length new]
            @ map (\<lambda>i. KeyedEntry (Some i) None (child_key (old ! i)) (Some REMOVE))
                (filter (\<lambda>i. i \<notin> consumed old new) [0..<length old]))"
proof -
  have ak: "allKeyed new"
    using assms unfolding allKeyed_def keyedCount_def by simp
  have rec: "map (\<lambda>(j, c). keyed_entry_for diff (oldKeyMap_loop old 0 Map.empty) j c)
               (zip [0..<length new] new)
           = map (\<lambda>newIndex. keyed_record old newIndex (new ! newIndex)) [0..<length new]"
    using assms by (simp add: zip_upt_nth keyed_entry_for_record)
  have rem: "map (\<lambda>(j, c). KeyedEntry (Some j) None (child_key c) (Some REMOVE))
               (filter (\<lambda>(j, c). j \<notin> U) (zip [0..<length old] old))
           = map (\<lambda>i. KeyedEntry (Some i) None (child_key (old ! i)) (Some REMOVE))
               (filter (\<lambda>i. i \<notin> U) [0..<length old])" for U
    by (simp add: zip_upt_nth filter_map comp_def)
  show ?thesis
    unfolding diffChildren_def diffChildren_with_def keyed_new_loop_map keyed_remove_loop_map
    using ak by (simp add: rec rem matched_indices_consumed [OF assms])
qed

lemma matching_old_inj:
  assumes "distinct (map child_key new)" "n1 < length new" "n2 < length new"
    and "matching_old old (child_key (new ! n1)) = Some i"
    and "matching_old old (child_key (new ! n2)) = Some i"
  shows "n1 = n2"
proof -
  have "child_key (new ! n1) = child_key (new ! n2)"
    using assms(4,5) by (auto dest!: matching_old_Some)
  then have "map child_key new ! n1 = map child_key new ! n2"
    using assms(2,3) by simp
  then show ?thesis
    using assms(1,2,3) by (auto simp: distinct_conv_nth)
qed


text \<open>
  Claim C2 (amended).  When every new child has a non-null key, \<open>diffChildren\<close> returns
  the keyed list made of one record per new child, in order, followed by one \<open>REMOVE\<close>
  record per old index that no new child matched, in ascending order.  The record of the
  new child at \<open>newIndex\<close> carries the index of the last old child with the same key and
  the patch \<open>diff(oldChild, newChild)\<close>, or no old index and \<open>CREATE(newChild)\<close> when no old
  child has that key.  When the keys of the new children are pairwise distinct, no old
  index is matched by two new children.  For the old children a, b, c and the new
  children z, a, b, c the result is the creation of z and three matches whose patch is
  the no-op, without any removal.
\<close>

theorem diffChildren_keyed_records:
  "((\<forall>c \<in> set newChildren. not_nullish (child_key c)) \<longrightarrow>
      diffChildren oldChildren newChildren =
        Keyed (map (\<lambda>newIndex. keyed_record oldChildren newIndex (newChildren ! newIndex))
                 [0..<length newChildren]
               @ map (\<lambda>i. KeyedEntry (Some i) None (child_key (oldChildren ! i)) (Some REMOVE))
                   (filter (\<lambda>i. i \<notin> consumed oldChildren newChildren) [0..<length oldChildren])))
   \<and> (matching_old oldChildren k = Some i \<longrightarrow>
        i < length oldChildren \<and> child_key (oldChildren ! i) = k)
   \<and> (matching_old oldChildren k = None \<longleftrightarrow> (\<forall>c \<in> set oldChildren. child_key c \<noteq> k))
   \<and> (distinct (map child_key newChildren) \<and> n1 < length newChildren \<and> n2 < length newChildren
        \<and> matching_old oldChildren (child_key (newChildren ! n1)) = Some j
        \<and> matching_old oldChildren (child_key (newChildren ! n2)) = Some j
       \<longrightarrow> n1 = n2)
   \<and> diffChildren
        [h ''li'' [(''key'', JStr ''a'')] [], h ''li'' [(''key'', JStr ''b'')] [],
         h ''li'' [(''key'', JStr ''c'')] []]
        [h ''li'' [(''key'', JStr ''z'')] [], h ''li'' [(''key'', JStr ''a'')] [],
         h ''li'' [(''key'', JStr ''b'')] [], h ''li'' [(''key'', JStr ''c'')] []]
      = Keyed [KeyedEntry None (Some 0) (JStr ''z'')
                 (Some (CREATE (Some (h ''li'' [(''key'', JStr ''z'')] [])))),
               KeyedEntry (Some 0) (Some 1) (JStr ''a'') None,
               KeyedEntry (Some 1) (Some 2) (JStr ''b'') None,
               KeyedEntry (Some 2) (Some 3) (JStr ''c'') None]"
proof (intro conjI)
  show "(\<forall>c \<in> set newChildren. not_nullish (child_key c)) \<longrightarrow>
      diffChildren oldChildren newChildren =
        Keyed (map (\<lambda>newIndex. keyed_record oldChildren newIndex (newChildren ! newIndex))
                 [0..<length newChildren]
               @ map (\<lambda>i. KeyedEntry (Some i) None (child_key (oldChildren ! i)) (Some REMOVE))
                   (filter (\<lambda>i. i \<notin> consumed oldChildren newChildren) [0..<length oldChildren]))"
    using diffChildren_keyed by blast
  show "matching_old oldChildren k = Some i \<longrightarrow>
        i < length oldChildren \<and> child_key (oldChildren ! i) = k"
    using matching_old_Some by blast
  show "matching_old oldChildren k = None \<longleftrightarrow> (\<forall>c \<in> set oldChildren. child_key c \<noteq> k)"
    by (rule matching_old_None)
  show "distinct (map child_key newChildren) \<and> n1 < length newChildren \<and> n2 < length newChildren
        \<and> matching_old oldChildren (child_key (newChildren ! n1)) = Some j
        \<and> matching_old oldChildren (child_key (newChildren ! n2)) = Some j
       \<longrightarrow> n1 = n2"
    using matching_old_inj by blast
  show "diffChildren
        [h ''li'' [(''key'', JStr ''a'')] [], h ''li'' [(''key'', JStr ''b'')] [],
         h ''li'' [(''key'', JStr ''c'')] []]
        [h ''li'' [(''key'', JStr ''z'')] [], h ''li'' [(''key'', JStr ''a'')] [],
         h ''li'' [(''key'', JStr ''b'')] [], h ''li'' [(''key'', JStr ''c'')] []]
      = Keyed [KeyedEntry None (Some 0) (JStr ''z'')
                 (Some (CREATE (Some (h ''li'' [(''key'', JStr ''z'')] [])))),
               KeyedEntry (Some 0) (Some 1) (JStr ''a'') None,
               KeyedEntry (Some 1) (Some 2) (JStr ''b'') None,
               KeyedEntry (Some 2) (Some 3) (JStr ''c'') None]"
    by code_simp
qed

theorem diffChildren_keyed_records_witness:
  "not_nullish (child_key (h ''li'' [(''key'', JStr ''b'')] []))
   \<and> not_nullish (child_key (h ''li'' [(''key'', JNum 7)] [Prim ''x'']))
   \<and> diffChildren
        [h ''li'' [(''key'', JNum 7)] [], h ''li'' [(''key'', JNum 7)] [], h ''p'' [] []]
        [h ''li'' [(''key'', JStr ''b'')] [], h ''li'' [(''key'', JNum 7)] [Prim ''x'']]
      = Keyed [KeyedEntry None (Some 0) (JStr ''b'')
                 (Some (CREATE (Some (h ''li'' [(''key'', JStr ''b'')] [])))),
               KeyedEntry (Some 1) (Some 1) (JNum 7)
                 (Some (UPDATE [] (Positional [Some (CREATE (Some (createTextVNode ''x'')))]))),
               KeyedEntry (Some 0) None (JNum 7) (Some REMOVE),
               KeyedEntry (Some 2) None JUndefined (Some REMOVE)]"
proof -
  let ?old = "[h ''li'' [(''key'', JNum 7)] [], h ''li'' [(''key'', JNum 7)] [], h ''p'' [] []]"
  let ?new = "[h ''li'' [(''key'', JStr ''b'')] [], h ''li'' [(''key'', JNum 7)] [Prim ''x'']]"
  have ak: "\<forall>c \<in> set ?new. not_nullish (child_key c)"
    by (simp add: h_def child_key_own not_nullish_def)
  have m1: "matching_old ?old (JStr ''b'') = None"
    by (simp add: matching_old_def h_def child_key_own upt_rec)
  have m2: "matching_old ?old (JNum 7) = Some 1"
    by (simp add: matching_old_def h_def child_key_own upt_rec)
  have cons: "consumed ?old ?new = {1}"
    using m1 m2 by (auto simp: consumed_def h_def child_key_own)
  have "diffChildren ?old ?new =
        Keyed (map (\<lambda>newIndex. keyed_record ?old newIndex (?new ! newIndex)) [0..<length ?new]
               @ map (\<lambda>i. KeyedEntry (Some i) None (child_key (?old ! i)) (Some REMOVE))
                   (filter (\<lambda>i. i \<notin> consumed ?old ?new) [0..<length ?old]))"
    using diffChildren_keyed_records [THEN conjunct1, THEN mp, OF ak] .
  also have "\<dots> = Keyed [KeyedEntry None (Some 0) (JStr ''b'')
                 (Some (CREATE (Some (h ''li'' [(''key'', JStr ''b'')] [])))),
               KeyedEntry (Some 1) (Some 1) (JNum 7)
                 (Some (UPDATE [] (Positional [Some (CREATE (Some (createTextVNode ''x'')))]))),
               KeyedEntry (Some 0) None (JNum 7) (Some REMOVE),
               KeyedEntry (Some 2) None JUndefined (Some REMOVE)]"
    unfolding cons by code_simp
  finally show ?thesis by (simp add: h_def child_key_own not_nullish_def)
qed

text \<open>
  The claim as it was stated fails when two new children carry the same key: both get a
  record with the same old index.
\<close>

theorem diffChildren_duplicate_key_counterexample:
  "not_nullish (child_key (h ''li'' [(''key'', JStr ''a'')] []))
   \<and> diffChildren [h ''li'' [(''key'', JStr ''a'')] []]
        [h ''li'' [(''key'', JStr ''a'')] [], h ''li'' [(''key'', JStr ''a'')] []]
      = Keyed [KeyedEntry (Some 0) (Some 0) (JStr ''a'') None,
               KeyedEntry (Some 0) (Some 1) (JStr ''a'') None]"
  by code_simp


section \<open>Applying props to an element (render.js)\<close>

text \<open>
  The element lives in the host's document; what the renderer does to it is the sequence
  of the DOM calls and property assignments it makes on it.
\<close>

datatype dom_call =
    SetAttribute string jsval
  | SetAttributeNS string string jsval
  | RemoveAttribute string
  | AssignClassName jsval
  | AssignValue jsval
  | AssignStyle jsval
  | AddEventListener string jsval
  | RemoveEventListener string jsval

text \<open>
  The name under which a call writes to the attributes and properties of the element;
  listener calls and removals write none.
\<close>

fun written_name :: "dom_call \<Rightarrow> string option" where
  "written_name (SetAttribute k v) = Some k"
| "written_name (SetAttributeNS ns q v) = Some q"
| "written_name (RemoveAttribute k) = None"
| "written_name (AssignClassName v) = Some ''className''"
| "written_name (AssignValue v) = Some ''value''"
| "written_name (AssignStyle v) = Some ''style''"
| "written_name (AddEventListener e v) = None"
| "written_name (RemoveEventListener e v) = None"

text \<open>
  \<open>eventHandlers.get(el)\<close>: the handlers object of the element, absent until the first
  handler is set.  It is an object literal, so \<open>handlers[key]\<close> reads an own entry first
  and an inherited member otherwise.
\<close>

type_synonym handlers = "(string \<rightharpoonup> jsval) option"

definition handler_get :: "(string \<rightharpoonup> jsval) \<Rightarrow> string \<Rightarrow> jsval" where
  "handler_get hs k = (case hs k of None \<Rightarrow> prop_get [] k | Some v \<Rightarrow> v)"

definition startsWith :: "string \<Rightarrow> string \<Rightarrow> bool" where
  "startsWith s p = (take (length p) s = p)"

text \<open>\<open>toLowerCase\<close> on the ASCII letters.\<close>

definition toLowerCase :: "string \<Rightarrow> string" where
  "toLowerCase s =
     map (\<lambda>c. let n = (of_char c :: nat) in if 65 \<le> n \<and> n \<le> 90 then char_of (n + 32) else c) s"

text \<open>The event branch shared by both versions of \<open>setProp\<close>.\<close>

definition set_handler :: "handlers \<Rightarrow> string \<Rightarrow> jsval \<Rightarrow> dom_call list \<times> handlers" where
  "set_handler hs k v =
     (let eventName = toLowerCase (drop 2 k);
          handlers = (case hs of None \<Rightarrow> Map.empty | Some m \<Rightarrow> m)
      in ((if truthy (handler_get handlers k)
           then [RemoveEventListener eventName (handler_get handlers k)] else [])
          @ [AddEventListener eventName v],
          Some (handlers(k \<mapsto> v))))"

text \<open>\<open>setProp(el, key, value)\<close> of src/render.js.\<close>

definition setProp :: "handlers \<Rightarrow> string \<Rightarrow> jsval \<Rightarrow> dom_call list \<times> handlers" where
  "setProp hs k v =
     (if k = ''key'' then ([], hs)
      else if startsWith k ''on'' then set_handler hs k v
      else if k = ''className'' then ([AssignClassName v], hs)
      else if k = ''style'' \<and> typeof_object v then ([AssignStyle v], hs)
      else if k = ''value'' then ([AssignValue v], hs)
      else ([SetAttribute k v], hs))"

definition SVG_NS :: string where
  "SVG_NS = ''http://www.w3.org/2000/svg''"

text \<open>
  \<open>setProp(el, key, value, ns)\<close> of the namespace-aware renderer; \<open>ns\<close> is a namespace
  URI or \<open>null\<close>.
\<close>

definition setProp_ns :: "handlers \<Rightarrow> string \<Rightarrow> jsval \<Rightarrow> string option \<Rightarrow> dom_call list \<times> handlers" where
  "setProp_ns hs k v ns =
     (if k = ''key'' then ([], hs)
      else if startsWith k ''on'' then set_handler hs k v
      else if k = ''className'' then
        (if ns = Some SVG_NS then ([SetAttribute ''class'' v], hs) else ([AssignClassName v], hs))
      else if k = ''style'' \<and> typeof_object v then ([AssignStyle v], hs)
      else if k = ''value'' \<and> (ns = None \<or> ns = Some []) then ([AssignValue v], hs)
      else if k = ''xlinkHref'' \<or> k = ''xlink:href'' then
        ([SetAttributeNS ''http://www.w3.org/1999/xlink'' ''xlink:href'' v], hs)
      else ([SetAttribute k v], hs))"

text \<open>\<open>setProps\<close>: the loop over the keys of the props, for either version of \<open>setProp\<close>.\<close>

fun setProps_loop ::
  "(handlers \<Rightarrow> string \<Rightarrow> jsval \<Rightarrow> dom_call list \<times> handlers) \<Rightarrow> props \<Rightarrow> string list \<Rightarrow>
   dom_call list \<times> handlers \<Rightarrow> dom_call list \<times> handlers" where
  "setProps_loop sp props [] acc = acc"
| "setProps_loop sp props (k # ks) (calls, hs) =
     (let (cs, hs') = sp hs k (prop_get props k)
      in setProps_loop sp props ks (calls @ cs, hs'))"

definition setProps :: "handlers \<Rightarrow> props \<Rightarrow> dom_call list \<times> handlers" where
  "setProps hs props = setProps_loop setProp props (prop_keys props) ([], hs)"

definition setProps_ns :: "handlers \<Rightarrow> props \<Rightarrow> string option \<Rightarrow> dom_call list \<times> handlers" where
  "setProps_ns hs props ns =
     setProps_loop (\<lambda>hs k v. setProp_ns hs k v ns) props (prop_keys props) ([], hs)"

definition removeProp :: "handlers \<Rightarrow> string \<Rightarrow> dom_call list \<times> handlers" where
  "removeProp hs k =
     (if startsWith k ''on'' then
        (let eventName = toLowerCase (drop 2 k)
         in case hs of
              None \<Rightarrow> ([], hs)
            | Some handlers \<Rightarrow>
                if truthy (handler_get handlers k)
                then ([RemoveEventListener eventName (handler_get handlers k)],
                      Some (handlers(k := None)))
                else ([], hs))
      else if k = ''className'' then ([AssignClassName (JStr [])], hs)
      else ([RemoveAttribute k], hs))"

text \<open>
  \<open>patchObj.propPatches.forEach(...)\<close> in the \<open>UPDATE\<close> branch of \<open>patch\<close>, for either
  version of \<open>setProp\<close>.
\<close>

fun apply_propPatches ::
  "(handlers \<Rightarrow> string \<Rightarrow> jsval \<Rightarrow> dom_call list \<times> handlers) \<Rightarrow> prop_patch list \<Rightarrow>
   dom_call list \<times> handlers \<Rightarrow> dom_call list \<times> handlers" where
  "apply_propPatches sp [] acc = acc"
| "apply_propPatches sp (SET_PROP k v # ps) (calls, hs) =
     (let (cs, hs') = sp hs k v in apply_propPatches sp ps (calls @ cs, hs'))"
| "apply_propPatches sp (REMOVE_PROP k # ps) (calls, hs) =
     (let (cs, hs') = removeProp hs k in apply_propPatches sp ps (calls @ cs, hs'))"

lemma setProp_written: "c \<in> set (fst (setProp hs k v)) \<Longrightarrow> written_name c \<noteq> Some ''key''"
  by (auto simp: setProp_def set_handler_def Let_def split: if_splits)

lemma setProp_ns_written: "c \<in> set (fst (setProp_ns hs k v ns)) \<Longrightarrow> written_name c \<noteq> Some ''key''"
  by (auto simp: setProp_ns_def set_handler_def Let_def split: if_splits)

lemma removeProp_written: "c \<in> set (fst (removeProp hs k)) \<Longrightarrow> written_name c \<noteq> Some ''key''"
  by (auto simp: removeProp_def Let_def split: if_splits option.splits)

lemma setProps_loop_written:
  assumes "\<And>hs k v c. c \<in> set (fst (sp hs k v)) \<Longrightarrow> written_name c \<noteq> Some ''key''"
    and "\<forall>c \<in> set (fst acc). written_name c \<noteq> Some ''key''"
  shows "\<forall>c \<in> set (fst (setProps_loop sp props ks acc)). written_name c \<noteq> Some ''key''"
  using assms(2)
proof (induction ks arbitrary: acc)
  case Nil
  then show ?case by simp
next
  case (Cons k ks)
  obtain calls hs where acc: "acc = (calls, hs)" by (cases acc)
  obtain cs hs' where sp: "sp hs k (prop_get props k) = (cs, hs')" by (cases "sp hs k (prop_get props k)")
  have "\<forall>c \<in> set cs. written_name c \<noteq> Some ''key''"
    using assms(1) [of _ hs k "prop_get props k"] sp by simp
  with Cons.prems acc have "\<forall>c \<in> set (fst (calls @ cs, hs')). written_name c \<noteq> Some ''key''"
    by auto
  from Cons.IH [OF this] show ?case by (simp add: acc sp)
qed

lemma apply_propPatches_written:
  assumes "\<And>hs k v c. c \<in> set (fst (sp hs k v)) \<Longrightarrow> written_name c \<noteq> Some ''key''"
    and "\<forall>c \<in> set (fst acc). written_name c \<noteq> Some ''key''"
  shows "\<forall>c \<in> set (fst (apply_propPatches sp ps acc)). written_name c \<noteq> Some ''key''"
  using assms(2)
proof (induction ps arbitrary: acc)
  case Nil
  then show ?case by simp
next
  case (Cons p ps)
  obtain calls hs where acc: "acc = (calls, hs)" by (cases acc)
  show ?case
  proof (cases p)
    case (SET_PROP k v)
    obtain cs hs' where sp: "sp hs k v = (cs, hs')" by (cases "sp hs k v")
    have "\<forall>c \<in> set cs. written_name c \<noteq> Some ''key''"
      using assms(1) [of _ hs k v] sp by simp
    with Cons.prems acc have "\<forall>c \<in> set (fst (calls @ cs, hs')). written_name c \<noteq> Some ''key''"
      by auto
    from Cons.IH [OF this] show ?thesis by (simp add: acc sp SET_PROP)
  next
    case (REMOVE_PROP k)
    obtain cs hs' where rp: "removeProp hs k = (cs, hs')" by (cases "removeProp hs k")
    have "\<forall>c \<in> set cs. written_name c \<noteq> Some ''key''"
      using removeProp_written [of _ hs k] rp by simp
    with Cons.prems acc have "\<forall>c \<in> set (fst (calls @ cs, hs')). written_name c \<noteq> Some ''key''"
      by auto
    from Cons.IH [OF this] show ?thesis by (simp add: acc rp REMOVE_PROP)
  qed
qed


subsection \<open>createElement\<close>

text \<open>
  A live node, as \<open>createElement\<close> builds it: a text node, or an element with its tag, its
  namespace, the calls made on it, its handlers object and its children.
\<close>

datatype live_node =
    TextNode "string option"
  | Element string "string option" "dom_call list" handlers "live_node list"

text \<open>\<open>createElement(vnode)\<close> of src/render.js.\<close>

fun createElement :: "vnode \<Rightarrow> live_node" where
  "createElement (VNode type props children text) =
     (if type = ''TEXT'' then TextNode text
      else let (calls, hs) = setProps None props
           in Element type None calls hs (map createElement children))"

definition MATHML_NS :: string where
  "MATHML_NS = ''http://www.w3.org/1998/Math/MathML''"

definition getNamespace :: "string \<Rightarrow> string option \<Rightarrow> string option" where
  "getNamespace type parentNs =
     (if type = ''svg'' then Some SVG_NS else if type = ''math'' then Some MATHML_NS else parentNs)"

definition getChildNamespace :: "string \<Rightarrow> string option \<Rightarrow> string option" where
  "getChildNamespace type elementNs = (if type = ''foreignObject'' then None else elementNs)"

text \<open>\<open>createElement(vnode, ns)\<close> of the namespace-aware renderer.\<close>

fun createElement_ns :: "vnode \<Rightarrow> string option \<Rightarrow> live_node" where
  "createElement_ns (VNode type props children text) ns =
     (if type = ''TEXT'' then TextNode text
      else let elementNs = getNamespace type ns;
               (calls, hs) = setProps_ns None props elementNs;
               childNs = getChildNamespace type elementNs
           in Element type elementNs calls hs (map (\<lambda>child. createElement_ns child childNs) children))"

text \<open>All the calls made on the elements of a live tree.\<close>

fun all_calls :: "live_node \<Rightarrow> dom_call list" where
  "all_calls (TextNode t) = []"
| "all_calls (Element tag ns calls hs children) = calls @ concat (map all_calls children)"

lemma setProps_written: "\<forall>c \<in> set (fst (setProps hs props)). written_name c \<noteq> Some ''key''"
  unfolding setProps_def by (rule setProps_loop_written) (auto dest: setProp_written)

lemma setProps_ns_written: "\<forall>c \<in> set (fst (setProps_ns hs props ns)). written_name c \<noteq> Some ''key''"
  unfolding setProps_ns_def by (rule setProps_loop_written) (auto dest: setProp_ns_written)

lemma createElement_written: "\<forall>c \<in> set (all_calls (createElement v)). written_name c \<noteq> Some ''key''"
proof (induction v)
  case (VNode ty ps cs t)
  obtain calls hs where sp: "setProps None ps = (calls, hs)" by (cases "setProps None ps")
  have "\<forall>c \<in> set calls. written_name c \<noteq> Some ''key''"
    using setProps_written [of None ps] sp by simp
  with VNode show ?case by (auto simp: sp)
qed

lemma createElement_ns_written:
  "\<forall>c \<in> set (all_calls (createElement_ns v ns)). written_name c \<noteq> Some ''key''"
proof (induction v arbitrary: ns)
  case (VNode ty ps cs t)
  obtain calls hs where sp: "setProps_ns None ps (getNamespace ty ns) = (calls, hs)"
    by (cases "setProps_ns None ps (getNamespace ty ns)")
  have "\<forall>c \<in> set calls. written_name c \<noteq> Some ''key''"
    using setProps_ns_written [of None ps "getNamespace ty ns"] sp by simp
  with VNode show ?case by (auto simp: sp Let_def)
qed

text \<open>
  Claim C8.  \<open>setProp\<close> called with the key \<open>key\<close> makes no call on the element and leaves
  its handlers as they were, in both versions of the renderer.  Hence no call that
  \<open>setProps\<close> makes for the props of a node, no call made on any element of a subtree that
  \<open>createElement\<close> builds, and no call made when the attribute patches of an \<open>UPDATE\<close> are
  applied, writes an attribute or property named \<open>key\<close>.
\<close>

theorem setProp_skips_key:
  "setProp hs ''key'' v = ([], hs)
   \<and> setProp_ns hs ''key'' v ns = ([], hs)
   \<and> (\<forall>c \<in> set (fst (setProps hs props)). written_name c \<noteq> Some ''key'')
   \<and> (\<forall>c \<in> set (fst (setProps_ns hs props ns)). written_name c \<noteq> Some ''key'')
   \<and> (\<forall>c \<in> set (all_calls (createElement vnode)). written_name c \<noteq> Some ''key'')
   \<and> (\<forall>c \<in> set (all_calls (createElement_ns vnode ns)). written_name c \<noteq> Some ''key'')
   \<and> (\<forall>c \<in> set (fst (apply_propPatches setProp propPatches ([], hs))).
         written_name c \<noteq> Some ''key'')
   \<and> (\<forall>c \<in> set (fst (apply_propPatches (\<lambda>hs k v. setProp_ns hs k v ns) propPatches ([], hs))).
         written_name c \<noteq> Some ''key'')"
proof (intro conjI)
  show "setProp hs ''key'' v = ([], hs)" by (simp add: setProp_def)
  show "setProp_ns hs ''key'' v ns = ([], hs)" by (simp add: setProp_ns_def)
  show "\<forall>c \<in> set (fst (setProps hs props)). written_name c \<noteq> Some ''key''"
    by (rule setProps_written)
  show "\<forall>c \<in> set (fst (setProps_ns hs props ns)). written_name c \<noteq> Some ''key''"
    by (rule setProps_ns_written)
  show "\<forall>c \<in> set (all_calls (createElement vnode)). written_name c \<noteq> Some ''key''"
    by (rule createElement_written)
  show "\<forall>c \<in> set (all_calls (createElement_ns vnode ns)). written_name c \<noteq> Some ''key''"
    by (rule createElement_ns_written)
  show "\<forall>c \<in> set (fst (apply_propPatches setProp propPatches ([], hs))).
         written_name c \<noteq> Some ''key''"
    by (rule apply_propPatches_written) (auto dest: setProp_written)
  show "\<forall>c \<in> set (fst (apply_propPatches (\<lambda>hs k v. setProp_ns hs k v ns) propPatches ([], hs))).
         written_name c \<noteq> Some ''key''"
    by (rule apply_propPatches_written) (auto dest: setProp_ns_written)
qed

theorem setProp_skips_key_witness:
  "fst (setProps None [(''key'', JStr ''a''), (''id'', JStr ''x'')]) = [SetAttribute ''id'' (JStr ''x'')]
   \<and> written_name (SetAttribute ''id'' (JStr ''x'')) \<noteq> Some ''key''
   \<and> fst (apply_propPatches setProp [SET_PROP ''key'' (JStr ''b''), SET_PROP ''title'' (JStr ''t'')]
            ([], None))
       = [SetAttribute ''title'' (JStr ''t'')]
   \<and> written_name (SetAttribute ''title'' (JStr ''t'')) \<noteq> Some ''key''"
proof -
  have a: "fst (setProps None [(''key'', JStr ''a''), (''id'', JStr ''x'')])
             = [SetAttribute ''id'' (JStr ''x'')]"
    by code_simp
  have b: "fst (apply_propPatches setProp
                  [SET_PROP ''key'' (JStr ''b''), SET_PROP ''title'' (JStr ''t'')] ([], None))
             = [SetAttribute ''title'' (JStr ''t'')]"
    by code_simp
  note t = setProp_skips_key
             [where hs = None and props = "[(''key'', JStr ''a''), (''id'', JStr ''x'')]"
                and propPatches = "[SET_PROP ''key'' (JStr ''b''), SET_PROP ''title'' (JStr ''t'')]"]
  from t have "\<forall>c \<in> set (fst (setProps None [(''key'', JStr ''a''), (''id'', JStr ''x'')])).
                 written_name c \<noteq> Some ''key''"
    by blast
  then have c: "written_name (SetAttribute ''id'' (JStr ''x'')) \<noteq> Some ''key''"
    unfolding a by simp
  from t have "\<forall>c \<in> set (fst (apply_propPatches setProp
                  [SET_PROP ''key'' (JStr ''b''), SET_PROP ''title'' (JStr ''t'')] ([], None))).
                 written_name c \<noteq> Some ''key''"
    by blast
  then have d: "written_name (SetAttribute ''title'' (JStr ''t'')) \<noteq> Some ''key''"
    unfolding b by simp
  from a b c d show ?thesis by blast
qed


section \<open>The one-time warnings of diffChildren\<close>

text \<open>
  \<open>diffChildren\<close> also reads and sets the module-level flags \<open>warnedMixedKeys\<close> and
  \<open>warnedNoKeys\<close> and writes to the console.  \<open>diff_w\<close> is \<open>diff\<close> with this state threaded
  through, in the order of evaluation of the source.
\<close>

record warn_state =
  warnedMixedKeys :: bool
  warnedNoKeys :: bool
  console :: "string list"

definition diffChildren_warn :: "vnode list \<Rightarrow> warn_state \<Rightarrow> warn_state" where
  "diffChildren_warn newChildren w =
     (let hasKeys = (keyedCount newChildren > 0)
      in if hasKeys \<and> \<not> allKeyed newChildren \<and> \<not> warnedMixedKeys w then
           w\<lparr>warnedMixedKeys := True,
             console := console w @
               [''murjs: Mixed keyed and unkeyed children. All siblings should have keys.'']\<rparr>
         else if \<not> hasKeys \<and> length newChildren > 1 \<and> \<not> warnedNoKeys w then
           w\<lparr>warnedNoKeys := True,
             console := console w @
               [''murjs: List rendered without keys. Add '' @ [CHR 0x22] @ ''key'' @ [CHR 0x22]
                @ '' prop for better performance.'']\<rparr>
         else w)"

type_synonym diff_fn = "vnode option \<Rightarrow> vnode option \<Rightarrow> warn_state \<Rightarrow> patch option \<times> warn_state"

function positional_loop_w ::
  "diff_fn \<Rightarrow> vnode list \<Rightarrow> vnode list \<Rightarrow> nat \<Rightarrow> nat \<Rightarrow> patch option list \<Rightarrow> warn_state \<Rightarrow>
   patch option list \<times> warn_state" where
  "positional_loop_w d oldChildren newChildren i maxLength patches w =
     (if i < maxLength
      then case d (nth_opt oldChildren i) (nth_opt newChildren i) w of
             (p, w') \<Rightarrow>
               positional_loop_w d oldChildren newChildren (Suc i) maxLength (patches @ [p]) w'
      else (patches, w))"
  by pat_completeness auto
termination
  by (relation "measure (\<lambda>(d, oldChildren, newChildren, i, maxLength, patches, w). maxLength - i)")
     auto

declare positional_loop_w.simps [simp del]

fun keyed_new_loop_w ::
  "diff_fn \<Rightarrow> (jsval \<rightharpoonup> vnode \<times> nat) \<Rightarrow> vnode list \<Rightarrow> nat \<Rightarrow> keyed_entry list \<times> nat set \<Rightarrow>
   warn_state \<Rightarrow> (keyed_entry list \<times> nat set) \<times> warn_state" where
  "keyed_new_loop_w d oldKeyMap [] newIndex acc w = (acc, w)"
| "keyed_new_loop_w d oldKeyMap (newChild # rest) newIndex (patches, usedOldIndices) w =
     (let k = child_key newChild;
          oldEntry = (if not_nullish k then oldKeyMap k else None)
      in case oldEntry of
           Some (child, index) \<Rightarrow>
             (case d (Some child) (Some newChild) w of
                (p, w') \<Rightarrow>
                  keyed_new_loop_w d oldKeyMap rest (Suc newIndex)
                    (patches @ [KeyedEntry (Some index) (Some newIndex) k p],
                     insert index usedOldIndices) w')
         | None \<Rightarrow>
             keyed_new_loop_w d oldKeyMap rest (Suc newIndex)
               (patches @ [KeyedEntry None (Some newIndex) k (Some (CREATE (Some newChild)))],
                usedOldIndices) w)"

definition diffChildren_w_with ::
  "diff_fn \<Rightarrow> vnode list \<Rightarrow> vnode list \<Rightarrow> warn_state \<Rightarrow> child_patches \<times> warn_state" where
  "diffChildren_w_with d oldChildren newChildren w =
     (let w1 = diffChildren_warn newChildren w
      in if \<not> allKeyed newChildren
         then case positional_loop_w d oldChildren newChildren 0
                     (max (length oldChildren) (length newChildren)) [] w1 of
                (patches, w2) \<Rightarrow> (Positional patches, w2)
         else
           let oldKeyMap = oldKeyMap_loop oldChildren 0 Map.empty
           in case keyed_new_loop_w d oldKeyMap newChildren 0 ([], {}) w1 of
                ((patches, usedOldIndices), w2) \<Rightarrow>
                  (Keyed (keyed_remove_loop oldChildren 0 usedOldIndices patches), w2))"

lemma positional_loop_w_cong:
  assumes "\<And>ov n w. n \<in> set new \<Longrightarrow> d ov (Some n) w = d' ov (Some n) w"
    and "\<And>ov w. d ov None w = d' ov None w"
  shows "positional_loop_w d old new i m ps w = positional_loop_w d' old new i m ps w"
proof (induction "m - i" arbitrary: i ps w)
  case 0
  then show ?case by (simp add: positional_loop_w.simps)
next
  case (Suc x)
  then have lt: "i < m" by simp
  have step: "d (nth_opt old i) (nth_opt new i) w = d' (nth_opt old i) (nth_opt new i) w"
    using assms by (cases "i < length new") (simp_all add: nth_opt_def)
  obtain p w' where r: "d' (nth_opt old i) (nth_opt new i) w = (p, w')"
    by (cases "d' (nth_opt old i) (nth_opt new i) w")
  have "x = m - Suc i" using Suc.hyps(2) by simp
  from Suc.hyps(1) [OF this]
  have IH: "positional_loop_w d old new (Suc i) m (ps @ [p]) w'
          = positional_loop_w d' old new (Suc i) m (ps @ [p]) w'" .
  have l: "positional_loop_w d old new i m ps w
         = positional_loop_w d old new (Suc i) m (ps @ [p]) w'"
    using lt step r by (subst positional_loop_w.simps) simp
  have r': "positional_loop_w d' old new i m ps w
         = positional_loop_w d' old new (Suc i) m (ps @ [p]) w'"
    using lt r by (subst positional_loop_w.simps) simp
  show ?case by (simp only: l r' IH)
qed

lemma keyed_new_loop_w_cong:
  assumes "\<And>ov n w. n \<in> set cs \<Longrightarrow> d ov (Some n) w = d' ov (Some n) w"
  shows "keyed_new_loop_w d m cs i acc w = keyed_new_loop_w d' m cs i acc w"
  using assms
proof (induction cs arbitrary: i acc w)
  case Nil
  then show ?case by simp
next
  case (Cons c cs)
  obtain ps used where acc: "acc = (ps, used)" by (cases acc)
  show ?case
    unfolding acc using Cons by (auto simp: Let_def split: option.splits prod.splits)
qed

lemma diffChildren_w_with_cong [fundef_cong]:
  assumes "old = old'" "new = new'" "w = w'"
    and "\<And>ov n w. n \<in> set new' \<Longrightarrow> d ov (Some n) w = d' ov (Some n) w"
    and "\<And>ov w. d ov None w = d' ov None w"
  shows "diffChildren_w_with d old new w = diffChildren_w_with d' old' new' w'"
proof -
  have a: "positional_loop_w d old' new' i m ps w0 = positional_loop_w d' old' new' i m ps w0"
    for i m ps w0
    by (rule positional_loop_w_cong) (use assms(4,5) in auto)
  have b: "keyed_new_loop_w d m new' i acc w0 = keyed_new_loop_w d' m new' i acc w0"
    for m i acc w0
    by (rule keyed_new_loop_w_cong) (use assms(4) in auto)
  show ?thesis
    unfolding diffChildren_w_with_def assms(1,2,3) a b ..
qed

function diff_w :: "vnode option \<Rightarrow> vnode option \<Rightarrow> warn_state \<Rightarrow> patch option \<times> warn_state" where
  "diff_w None newVNode w = (Some (CREATE newVNode), w)"
| "diff_w (Some oldVNode) None w = (Some REMOVE, w)"
| "diff_w (Some oldVNode) (Some newVNode) w =
     (if vtype oldVNode \<noteq> vtype newVNode then (Some (REPLACE newVNode), w)
      else if vtype oldVNode = ''TEXT'' then
        (if vtext oldVNode \<noteq> vtext newVNode then (Some (TEXT (vtext newVNode)), w) else (None, w))
      else
        let propPatches = diffProps (vprops oldVNode) (vprops newVNode)
        in case diffChildren_w_with diff_w (vchildren oldVNode) (vchildren newVNode) w of
             (childPatches, w') \<Rightarrow>
               if length propPatches > 0 \<or> patches_length childPatches > 0
               then (Some (UPDATE propPatches childPatches), w')
               else (None, w'))"
  by pat_completeness auto
termination
proof (relation "measure (\<lambda>(ov, nv, w). case nv of None \<Rightarrow> 0 | Some v \<Rightarrow> size v)")
  show "wf (measure (\<lambda>(ov, nv, w :: warn_state). case nv of None \<Rightarrow> 0 | Some v \<Rightarrow> size v))"
    by simp
next
  fix oldVNode newVNode n :: vnode and w w' :: warn_state and z :: "vnode option"
  assume "n \<in> set (vchildren newVNode)"
  then have "size n < size newVNode"
    by (cases newVNode) (auto simp: less_Suc_eq_le dest: size_list_estimation')
  then show "((z, Some n, w'), Some oldVNode, Some newVNode, w)
       \<in> measure (\<lambda>(ov, nv, w). case nv of None \<Rightarrow> 0 | Some v \<Rightarrow> size v)" by simp
next
  fix oldVNode newVNode :: vnode and w w' :: warn_state and z :: "vnode option"
  show "((z, None, w'), Some oldVNode, Some newVNode, w)
       \<in> measure (\<lambda>(ov, nv, w). case nv of None \<Rightarrow> 0 | Some v \<Rightarrow> size v)"
    by (cases newVNode) simp
qed

declare diff_w.simps(3) [simp del]

text \<open>The warnings never reach the result: \<open>diff_w\<close> returns the patch that \<open>diff\<close> computes.\<close>

lemma positional_loop_w_fst:
  assumes "\<And>ov n w. n \<in> set new \<Longrightarrow> fst (d ov (Some n) w) = d0 ov (Some n)"
    and "\<And>ov w. fst (d ov None w) = d0 ov None"
  shows "fst (positional_loop_w d old new i m ps w) = positional_loop d0 old new i m ps"
proof (induction "m - i" arbitrary: i ps w)
  case 0
  then show ?case by (simp add: positional_loop_w.simps positional_loop.simps)
next
  case (Suc x)
  then have lt: "i < m" by simp
  obtain p w' where r: "d (nth_opt old i) (nth_opt new i) w = (p, w')"
    by (cases "d (nth_opt old i) (nth_opt new i) w")
  have "fst (d (nth_opt old i) (nth_opt new i) w) = d0 (nth_opt old i) (nth_opt new i)"
    using assms by (cases "i < length new") (simp_all add: nth_opt_def)
  with r have p: "d0 (nth_opt old i) (nth_opt new i) = p" by simp
  have "x = m - Suc i" using Suc.hyps(2) by simp
  from Suc.hyps(1) [OF this]
  have IH: "fst (positional_loop_w d old new (Suc i) m (ps @ [p]) w')
          = positional_loop d0 old new (Suc i) m (ps @ [p])" .
  have l: "positional_loop_w d old new i m ps w
         = positional_loop_w d old new (Suc i) m (ps @ [p]) w'"
    using lt r by (subst positional_loop_w.simps) simp
  have r': "positional_loop d0 old new i m ps
         = positional_loop d0 old new (Suc i) m (ps @ [p])"
    using lt p by (subst positional_loop.simps) simp
  show ?case by (simp only: l r' IH)
qed

lemma keyed_new_loop_w_fst:
  assumes "\<And>ov n w. n \<in> set cs \<Longrightarrow> fst (d ov (Some n) w) = d0 ov (Some n)"
  shows "fst (keyed_new_loop_w d m cs i acc w) = keyed_new_loop d0 m cs i acc"
  using assms
proof (induction cs arbitrary: i acc w)
  case Nil
  then show ?case by simp
next
  case (Cons c cs)
  obtain ps used where acc: "acc = (ps, used)" by (cases acc)
  have c: "p = d0 ov (Some c)" if "d ov (Some c) w = (p, w')" for ov w p w'
    using Cons.prems [of c ov w] that by simp
  have IH: "fst (keyed_new_loop_w d m cs i acc w) = keyed_new_loop d0 m cs i acc" for i acc w
    using Cons by simp
  show ?case
    unfolding acc
    by (auto simp: Let_def IH split: option.splits prod.splits dest!: c)
qed

lemma diffChildren_w_with_fst:
  assumes "\<And>ov n w. n \<in> set new \<Longrightarrow> fst (d ov (Some n) w) = d0 ov (Some n)"
    and "\<And>ov w. fst (d ov None w) = d0 ov None"
  shows "fst (diffChildren_w_with d old new w) = diffChildren_with d0 old new"
proof -
  have a: "fst (positional_loop_w d old new i m ps w0) = positional_loop d0 old new i m ps"
    for i m ps w0
    by (rule positional_loop_w_fst) (use assms in auto)
  have b: "fst (keyed_new_loop_w d m new i acc w0) = keyed_new_loop d0 m new i acc"
    for m i acc w0
    by (rule keyed_new_loop_w_fst) (use assms(1) in auto)
  have a': "x1 = positional_loop d0 old new i m ps"
    if "positional_loop_w d old new i m ps w0 = (x1, x2)" for i m ps w0 x1 x2
    using a [of i m ps w0] that by simp
  have b': "r = keyed_new_loop d0 m new i acc"
    if "keyed_new_loop_w d m new i acc w0 = (r, x2)" for m i acc w0 r x2
    using b [of m i acc w0] that by simp
  show ?thesis
    unfolding diffChildren_w_with_def diffChildren_with_def
    by (auto simp: Let_def split: prod.splits dest!: a' b')
qed


lemma diff_w_result: "fst (diff_w ov nv w) = diff ov nv"
proof (induction ov nv w rule: diff_w.induct)
  case (1 newVNode w)
  then show ?case by simp
next
  case (2 oldVNode w)
  then show ?case by simp
next
  case (3 oldVNode newVNode w)
  show ?case
  proof (cases "vtype oldVNode \<noteq> vtype newVNode \<or> vtype oldVNode = ''TEXT''")
    case True
    then show ?thesis by (auto simp: diff_w.simps(3) diff.simps(3))
  next
    case False
    have "fst (diffChildren_w_with diff_w (vchildren oldVNode) (vchildren newVNode) w)
        = diffChildren_with diff (vchildren oldVNode) (vchildren newVNode)"
      by (rule diffChildren_w_with_fst) (use 3 False in auto)
    with False show ?thesis
      by (auto simp: diff_w.simps(3) diff.simps(3) Let_def split: prod.splits)
  qed
qed

text \<open>
  The positional branch of \<open>patch\<close> calls
  \<open>patch(el, childNodes[i], oldVNode.children[i], newVNode.children[i])\<close> for every index of
  \<open>childPatches.patches\<close>, and that call starts with
  \<open>diff(oldVNode.children[i], newVNode.children[i])\<close>: this is the patch it applies.
\<close>

definition child_patch_at_apply :: "vnode \<Rightarrow> vnode \<Rightarrow> nat \<Rightarrow> warn_state \<Rightarrow> patch option" where
  "child_patch_at_apply oldVNode newVNode i w =
     fst (diff_w (nth_opt (vchildren oldVNode) i) (nth_opt (vchildren newVNode) i) w)"

lemma diff_positional_entries:
  assumes "diff (Some ov) (Some nv) = Some (UPDATE pp (Positional ps))" and "i < length ps"
  shows "ps ! i = diff (nth_opt (vchildren ov) i) (nth_opt (vchildren nv) i)"
proof -
  from assms(1) have dc: "diffChildren (vchildren ov) (vchildren nv) = Positional ps"
    by (auto simp: diff_nodes Let_def split: if_splits)
  have "\<not> allKeyed (vchildren nv)"
  proof
    assume "allKeyed (vchildren nv)"
    then have "\<exists>es. diffChildren (vchildren ov) (vchildren nv) = Keyed es"
      by (simp add: diffChildren_def diffChildren_with_def Let_def split: prod.splits)
    with dc show False by auto
  qed
  from diffChildren_positional [OF this, of "vchildren ov"] dc
  have ps: "ps = map (\<lambda>i. diff (nth_opt (vchildren ov) i) (nth_opt (vchildren nv) i))
                   [0..<max (length (vchildren ov)) (length (vchildren nv))]"
    by simp
  from assms(2) have "i < max (length (vchildren ov)) (length (vchildren nv))"
    by (subst (asm) ps) simp
  then show ?thesis by (subst ps) simp
qed

text \<open>
  Claim C9 (amended).  \<open>diff\<close> is deterministic in what it returns, though not pure: the
  patch that it returns does not depend on the only state it reads and writes, the
  warning flags and the console of \<open>diffChildren\<close>, so two calls on the same vnodes return
  the same patch, whatever happened in between.  Hence, when \<open>diff\<close> returned an \<open>UPDATE\<close>
  with a positional child list, the patch that the positional branch of \<open>patch\<close> computes
  again for the child at index \<open>i\<close> is the entry \<open>i\<close> of that list.
\<close>

theorem diff_deterministic_positional_reuse:
  "fst (diff_w oldVNode newVNode w) = fst (diff_w oldVNode newVNode w')
   \<and> (fst (diff_w (Some ov) (Some nv) w) = Some (UPDATE propPatches (Positional patches)) \<longrightarrow>
        (\<forall>i < length patches. child_patch_at_apply ov nv i w' = patches ! i))"
proof
  show "fst (diff_w oldVNode newVNode w) = fst (diff_w oldVNode newVNode w')"
    by (simp add: diff_w_result)
  show "fst (diff_w (Some ov) (Some nv) w) = Some (UPDATE propPatches (Positional patches)) \<longrightarrow>
        (\<forall>i < length patches. child_patch_at_apply ov nv i w' = patches ! i)"
    by (auto simp: diff_w_result child_patch_at_apply_def dest: diff_positional_entries)
qed

definition example_old :: vnode where
  "example_old = h ''ul'' [] [Obj (h ''li'' [] [Prim ''a'']), Obj (h ''li'' [] [Prim ''b''])]"

definition example_new :: vnode where
  "example_new = h ''ul'' [] [Obj (h ''li'' [] [Prim ''a'']), Obj (h ''li'' [] [Prim ''c''])]"

theorem diff_deterministic_positional_reuse_witness:
  "fst (diff_w (Some example_old) (Some example_new)
          \<lparr>warnedMixedKeys = False, warnedNoKeys = False, console = []\<rparr>)
     = Some (UPDATE [] (Positional [Some (UPDATE [] (Positional [None])),
                                     Some (UPDATE [] (Positional [Some (TEXT (Some ''c''))]))]))
   \<and> warnedNoKeys (snd (diff_w (Some example_old) (Some example_new)
                           \<lparr>warnedMixedKeys = False, warnedNoKeys = False, console = []\<rparr>))
   \<and> child_patch_at_apply example_old example_new 0
        (snd (diff_w (Some example_old) (Some example_new)
                \<lparr>warnedMixedKeys = False, warnedNoKeys = False, console = []\<rparr>))
       = Some (UPDATE [] (Positional [None]))
   \<and> child_patch_at_apply example_old example_new 1
        (snd (diff_w (Some example_old) (Some example_new)
                \<lparr>warnedMixedKeys = False, warnedNoKeys = False, console = []\<rparr>))
       = Some (UPDATE [] (Positional [Some (TEXT (Some ''c''))]))"
proof -
  let ?w0 = "\<lparr>warnedMixedKeys = False, warnedNoKeys = False, console = []\<rparr>"
  let ?w1 = "snd (diff_w (Some example_old) (Some example_new) ?w0)"
  let ?ps = "[Some (UPDATE [] (Positional [None])),
              Some (UPDATE [] (Positional [Some (TEXT (Some ''c''))]))]"
  have a: "fst (diff_w (Some example_old) (Some example_new) ?w0)
             = Some (UPDATE [] (Positional ?ps))"
    by code_simp
  have b: "warnedNoKeys ?w1" by code_simp
  from diff_deterministic_positional_reuse [THEN conjunct2, THEN mp, OF a]
  have c: "\<forall>i < length ?ps. child_patch_at_apply example_old example_new i ?w1 = ?ps ! i" .
  from c have c0: "child_patch_at_apply example_old example_new 0 ?w1 = ?ps ! 0" by simp
  from c have c1: "child_patch_at_apply example_old example_new 1 ?w1 = ?ps ! 1" by simp
  from a b c0 c1 show ?thesis by simp
qed

text \<open>
  The claim as it was stated calls \<open>diff\<close> pure.  It is not: the first call on a list of
  two children without keys sets \<open>warnedNoKeys\<close> and prints one warning, and a second call
  on the same vnodes, made in the state that the first one left, changes nothing.
\<close>

theorem diff_not_pure_counterexample:
  "\<not> warnedNoKeys \<lparr>warnedMixedKeys = False, warnedNoKeys = False, console = []\<rparr>
   \<and> warnedNoKeys (snd (diff_w (Some example_old) (Some example_new)
                           \<lparr>warnedMixedKeys = False, warnedNoKeys = False, console = []\<rparr>))
   \<and> length (console (snd (diff_w (Some example_old) (Some example_new)
                              \<lparr>warnedMixedKeys = False, warnedNoKeys = False, console = []\<rparr>)))
       = 1
   \<and> snd (diff_w (Some example_old) (Some example_new)
             \<lparr>warnedMixedKeys = False, warnedNoKeys = False, console = []\<rparr>)
       \<noteq> \<lparr>warnedMixedKeys = False, warnedNoKeys = False, console = []\<rparr>
   \<and> snd (diff_w (Some example_old) (Some example_new)
             (snd (diff_w (Some example_old) (Some example_new)
                     \<lparr>warnedMixedKeys = False, warnedNoKeys = False, console = []\<rparr>)))
       = snd (diff_w (Some example_old) (Some example_new)
                \<lparr>warnedMixedKeys = False, warnedNoKeys = False, console = []\<rparr>)"
  by code_simp



section \<open>The reactive store and its effects (reactive.js)\<close>

text \<open>
  An effect is identified by its wrapped function object, here a number; a property of
  the target by its key.  What the function \<open>fn\<close> of an effect does to the reactive proxy
  is a sequence of reads and writes, each continuing according to the values read so far.
\<close>

type_synonym eid = nat
type_synonym rkey = string

datatype prog = Done | Get rkey "jsval \<Rightarrow> prog" | Put rkey jsval prog

text \<open>
  The calls of wrapped effects and the subscriptions made by \<open>track\<close>, in the order in
  which they happen.  The program never reads this log.
\<close>

datatype event = Run eid | Track eid rkey

text \<open>
  \<open>target\<close> is what each key of the wrapped object reads (for the object literal given
  to \<open>createReactive\<close>: an own property, else the inherited member, else \<open>undefined\<close>),
  \<open>deps\<close> the map from a key to its set of effects, in insertion order, \<open>effect_deps e\<close>
  the array \<open>deps\<close> of the wrapped effect \<open>e\<close>, each dependency set named by its key, and
  \<open>currentEffect\<close> the module-level variable of that name.  The properties are data
  properties: an assignment changes what its key reads and nothing else.  The one key
  whose assignment does more, \<open>__proto__\<close>, is left out.
\<close>

record rstate =
  target :: "rkey \<Rightarrow> jsval"
  deps :: "rkey \<rightharpoonup> eid list"
  effect_deps :: "eid \<Rightarrow> rkey list"
  currentEffect :: "eid option"
  trace :: "event list"

text \<open>\<open>Set.prototype.add\<close> and \<open>Set.prototype.delete\<close> on a set kept in insertion order.\<close>

definition set_add :: "'a \<Rightarrow> 'a list \<Rightarrow> 'a list" where
  "set_add x xs = (if x \<in> set xs then xs else xs @ [x])"

definition set_delete :: "'a \<Rightarrow> 'a list \<Rightarrow> 'a list" where
  "set_delete x xs = removeAll x xs"

text \<open>The effects subscribed to a key.\<close>

definition subscribers :: "rstate \<Rightarrow> rkey \<Rightarrow> eid list" where
  "subscribers s k = (case deps s k of None \<Rightarrow> [] | Some dep \<Rightarrow> dep)"

definition track :: "rkey \<Rightarrow> rstate \<Rightarrow> rstate" where
  "track k s =
     (case currentEffect s of
        None \<Rightarrow> s
      | Some e \<Rightarrow>
          let ds = (if deps s k = None then (deps s)(k \<mapsto> []) else deps s);
              dep = (case ds k of None \<Rightarrow> [] | Some d \<Rightarrow> d)
          in s\<lparr>deps := ds(k \<mapsto> set_add e dep),
               effect_deps := (effect_deps s)(e := effect_deps s e @ [k]),
               trace := trace s @ [Track e k]\<rparr>)"

text \<open>\<open>effect.deps.forEach(dep => dep.delete(effect))\<close>.\<close>

fun cleanup_loop :: "eid \<Rightarrow> rkey list \<Rightarrow> (rkey \<rightharpoonup> eid list) \<Rightarrow> (rkey \<rightharpoonup> eid list)" where
  "cleanup_loop e [] ds = ds"
| "cleanup_loop e (k # ks) ds =
     cleanup_loop e ks (case ds k of None \<Rightarrow> ds | Some dep \<Rightarrow> ds(k \<mapsto> set_delete e dep))"

definition cleanup :: "eid \<Rightarrow> rstate \<Rightarrow> rstate" where
  "cleanup e s =
     s\<lparr>deps := cleanup_loop e (effect_deps s e) (deps s),
       effect_deps := (effect_deps s)(e := [])\<rparr>"

text \<open>
  \<open>effectsToRun.forEach(effect => { if (effect !== currentEffect) effect(); })\<close>, over the
  array copied from the set; \<open>call\<close> is the call of a wrapped effect, and \<open>None\<close> means
  that the call did not return within the bound on the number of steps.
\<close>

fun forEach_effect ::
  "(eid \<Rightarrow> rstate \<Rightarrow> rstate option) \<Rightarrow> eid list \<Rightarrow> rstate \<Rightarrow> rstate option" where
  "forEach_effect call [] s = Some s"
| "forEach_effect call (e # es) s =
     (if Some e \<noteq> currentEffect s
      then (case call e s of None \<Rightarrow> None | Some s' \<Rightarrow> forEach_effect call es s')
      else forEach_effect call es s)"

definition trigger :: "(eid \<Rightarrow> rstate \<Rightarrow> rstate option) \<Rightarrow> rkey \<Rightarrow> rstate \<Rightarrow> rstate option" where
  "trigger call k s =
     (case deps s k of
        None \<Rightarrow> Some s
      | Some effects \<Rightarrow> (let effectsToRun = effects in forEach_effect call effectsToRun s))"

text \<open>The \<open>set\<close> trap of the proxy.\<close>

definition proxy_set ::
  "(eid \<Rightarrow> rstate \<Rightarrow> rstate option) \<Rightarrow> rkey \<Rightarrow> jsval \<Rightarrow> rstate \<Rightarrow> rstate option" where
  "proxy_set call k v s =
     (let oldValue = target s k;
          s1 = s\<lparr>target := (target s)(k := v)\<rparr>
      in if strict_neq oldValue v then trigger call k s1 else Some s1)"

text \<open>
  The wrapped effect: \<open>cleanup\<close>, then \<open>fn\<close> runs with \<open>currentEffect\<close> set to the effect,
  then \<open>currentEffect\<close> is restored.  \<open>run_fn\<close> runs the body of \<open>fn\<close>.
\<close>

definition wrappedEffect_with ::
  "(prog \<Rightarrow> rstate \<Rightarrow> rstate option) \<Rightarrow> prog \<Rightarrow> eid \<Rightarrow> rstate \<Rightarrow> rstate option" where
  "wrappedEffect_with run_fn fn e s =
     (let s1 = cleanup e (s\<lparr>trace := trace s @ [Run e]\<rparr>);
          prevEffect = currentEffect s1;
          s2 = s1\<lparr>currentEffect := Some e\<rparr>
      in case run_fn fn s2 of
           None \<Rightarrow> None
         | Some s3 \<Rightarrow> Some (s3\<lparr>currentEffect := prevEffect\<rparr>))"

text \<open>
  Running a body.  A write can call effects whose bodies write again, without end; the
  first argument bounds the number of steps, and \<open>None\<close> means that the bound was reached.
  \<open>fns e\<close> is the body of the function given to \<open>effect\<close> for the effect \<open>e\<close>.
\<close>

fun exec :: "nat \<Rightarrow> (eid \<Rightarrow> prog) \<Rightarrow> prog \<Rightarrow> rstate \<Rightarrow> rstate option" where
  "exec 0 fns p s = None"
| "exec (Suc n) fns Done s = Some s"
| "exec (Suc n) fns (Get k f) s = exec n fns (f (target s k)) (track k s)"
| "exec (Suc n) fns (Put k v p) s =
     (case proxy_set (\<lambda>e. wrappedEffect_with (exec n fns) (fns e) e) k v s of
        None \<Rightarrow> None
      | Some s' \<Rightarrow> exec n fns p s')"

definition wrappedEffect :: "nat \<Rightarrow> (eid \<Rightarrow> prog) \<Rightarrow> eid \<Rightarrow> rstate \<Rightarrow> rstate option" where
  "wrappedEffect n fns e = wrappedEffect_with (exec n fns) (fns e) e"

text \<open>A write to the proxy, from inside an effect or from outside.\<close>

definition set_prop :: "nat \<Rightarrow> (eid \<Rightarrow> prog) \<Rightarrow> rkey \<Rightarrow> jsval \<Rightarrow> rstate \<Rightarrow> rstate option" where
  "set_prop n fns = proxy_set (wrappedEffect n fns)"

text \<open>\<open>effect(fn)\<close>: the new wrapped effect gets an empty \<open>deps\<close> array and is called once.\<close>

definition effect :: "nat \<Rightarrow> (eid \<Rightarrow> prog) \<Rightarrow> eid \<Rightarrow> rstate \<Rightarrow> rstate option" where
  "effect n fns e s = wrappedEffect n fns e (s\<lparr>effect_deps := (effect_deps s)(e := [])\<rparr>)"

text \<open>\<open>createReactive(target)\<close> before any effect exists.\<close>

definition createReactive :: "(rkey \<times> jsval) list \<Rightarrow> rstate" where
  "createReactive obj =
     \<lparr>target = prop_get obj, deps = Map.empty, effect_deps = (\<lambda>e. []), currentEffect = None,
      trace = []\<rparr>"

text \<open>A sequence of calls made from outside any effect.\<close>

datatype action = Register eid | Write rkey jsval

fun run_actions :: "nat \<Rightarrow> (eid \<Rightarrow> prog) \<Rightarrow> action list \<Rightarrow> rstate \<Rightarrow> rstate option" where
  "run_actions n fns [] s = Some s"
| "run_actions n fns (Register e # as) s =
     (case effect n fns e s of None \<Rightarrow> None | Some s' \<Rightarrow> run_actions n fns as s')"
| "run_actions n fns (Write k v # as) s =
     (case set_prop n fns k v s of None \<Rightarrow> None | Some s' \<Rightarrow> run_actions n fns as s')"

definition runs_of :: "eid \<Rightarrow> rstate \<Rightarrow> nat" where
  "runs_of e s = count_list (trace s) (Run e)"


subsection \<open>A larger bound never changes a result\<close>

lemma forEach_effect_mono:
  assumes "\<And>e s s'. call e s = Some s' \<Longrightarrow> call' e s = Some s'"
  shows "forEach_effect call es s = Some s' \<Longrightarrow> forEach_effect call' es s = Some s'"
proof (induction es arbitrary: s)
  case Nil
  then show ?case by simp
next
  case (Cons e es)
  then show ?case by (auto split: if_splits option.splits dest: assms)
qed

lemma proxy_set_mono:
  assumes "\<And>e s s'. call e s = Some s' \<Longrightarrow> call' e s = Some s'"
  shows "proxy_set call k v s = Some s' \<Longrightarrow> proxy_set call' k v s = Some s'"
  using forEach_effect_mono [of call call', OF assms]
  by (auto simp: proxy_set_def trigger_def Let_def split: if_splits option.splits)

lemma wrappedEffect_with_mono:
  assumes "\<And>p s s'. run_fn p s = Some s' \<Longrightarrow> run_fn' p s = Some s'"
  shows "wrappedEffect_with run_fn fn e s = Some s' \<Longrightarrow> wrappedEffect_with run_fn' fn e s = Some s'"
  by (auto simp: wrappedEffect_with_def Let_def split: option.splits dest: assms)

lemma exec_Suc: "exec n fns p s = Some s' \<Longrightarrow> exec (Suc n) fns p s = Some s'"
proof (induction n arbitrary: p s s')
  case 0
  then show ?case by simp
next
  case (Suc n)
  show ?case
  proof (cases p)
    case Done
    with Suc.prems show ?thesis by simp
  next
    case (Get k f)
    with Suc.prems have "exec n fns (f (target s k)) (track k s) = Some s'" by simp
    from Suc.IH [OF this] show ?thesis by (simp add: Get)
  next
    case (Put k v q)
    let ?call = "\<lambda>n e. wrappedEffect_with (exec n fns) (fns e) e"
    from Suc.prems Put obtain s1 where
      a: "proxy_set (?call n) k v s = Some s1" and b: "exec n fns q s1 = Some s'"
      by (auto split: option.splits)
    have "\<And>e s s'. ?call n e s = Some s' \<Longrightarrow> ?call (Suc n) e s = Some s'"
      by (rule wrappedEffect_with_mono) (auto dest: Suc.IH)
    then have "proxy_set (?call (Suc n)) k v s = Some s1"
      using a by (rule proxy_set_mono)
    with Suc.IH [OF b] show ?thesis by (simp add: Put)
  qed
qed

lemma exec_mono: "exec n fns p s = Some s' \<Longrightarrow> n \<le> m \<Longrightarrow> exec m fns p s = Some s'"
  by (induction m) (auto simp: le_Suc_eq dest: exec_Suc)

lemma wrappedEffect_mono:
  "wrappedEffect n fns e s = Some s' \<Longrightarrow> n \<le> m \<Longrightarrow> wrappedEffect m fns e s = Some s'"
  unfolding wrappedEffect_def
  by (erule wrappedEffect_with_mono [rotated]) (auto dest: exec_mono)

lemma set_prop_mono:
  "set_prop n fns k v s = Some s' \<Longrightarrow> n \<le> m \<Longrightarrow> set_prop m fns k v s = Some s'"
  unfolding set_prop_def
  by (erule proxy_set_mono [rotated]) (auto dest: wrappedEffect_mono)

lemma run_actions_mono:
  "run_actions n fns as s = Some s' \<Longrightarrow> n \<le> m \<Longrightarrow> run_actions m fns as s = Some s'"
proof (induction as arbitrary: s)
  case Nil
  then show ?case by simp
next
  case (Cons a as)
  show ?case
  proof (cases a)
    case (Register e)
    with Cons.prems obtain s1 where
      a: "effect n fns e s = Some s1" and b: "run_actions n fns as s1 = Some s'"
      by (auto split: option.splits)
    from a Cons.prems(2) have "effect m fns e s = Some s1"
      by (auto simp: effect_def dest: wrappedEffect_mono)
    with Cons.IH [OF b Cons.prems(2)] show ?thesis by (simp add: Register)
  next
    case (Write k v)
    with Cons.prems obtain s1 where
      a: "set_prop n fns k v s = Some s1" and b: "run_actions n fns as s1 = Some s'"
      by (auto split: option.splits)
    from a Cons.prems(2) have "set_prop m fns k v s = Some s1"
      by (rule set_prop_mono)
    with Cons.IH [OF b Cons.prems(2)] show ?thesis by (simp add: Write)
  qed
qed

subsection \<open>Properties kept by every step\<close>

text \<open>
  A relation between the state before and the state after that holds of every step the
  program takes, and composes, holds of every run that returns.
\<close>

definition step_closed :: "(rstate \<Rightarrow> rstate \<Rightarrow> bool) \<Rightarrow> bool" where
  "step_closed R \<longleftrightarrow>
     (\<forall>s. R s s) \<and> (\<forall>s t u. R s t \<longrightarrow> R t u \<longrightarrow> R s u)
     \<and> (\<forall>k s. R s (track k s))
     \<and> (\<forall>k v s. R s (s\<lparr>target := (target s)(k := v)\<rparr>))
     \<and> (\<forall>e s s3. R ((cleanup e (s\<lparr>trace := trace s @ [Run e]\<rparr>))\<lparr>currentEffect := Some e\<rparr>) s3
           \<longrightarrow> R s (s3\<lparr>currentEffect := currentEffect s\<rparr>))"

lemma cleanup_currentEffect [simp]: "currentEffect (cleanup e s) = currentEffect s"
  by (simp add: cleanup_def)

lemma cleanup_trace [simp]: "trace (cleanup e s) = trace s"
  by (simp add: cleanup_def)

lemma cleanup_target [simp]: "target (cleanup e s) = target s"
  by (simp add: cleanup_def)

lemma forEach_effect_rel:
  assumes "step_closed R" and "\<And>e s s'. call e s = Some s' \<Longrightarrow> R s s'"
  shows "forEach_effect call es s = Some s' \<Longrightarrow> R s s'"
proof (induction es arbitrary: s)
  case Nil
  with assms(1) show ?case by (simp add: step_closed_def)
next
  case (Cons e es)
  show ?case
  proof (cases "Some e \<noteq> currentEffect s")
    case True
    with Cons.prems obtain s1 where
      a: "call e s = Some s1" and b: "forEach_effect call es s1 = Some s'"
      by (auto split: option.splits)
    from assms(2) [OF a] Cons.IH [OF b] assms(1) show ?thesis
      unfolding step_closed_def by blast
  next
    case False
    with Cons show ?thesis by simp
  qed
qed

lemma proxy_set_rel:
  assumes "step_closed R" and "\<And>e s s'. call e s = Some s' \<Longrightarrow> R s s'"
  shows "proxy_set call k v s = Some s' \<Longrightarrow> R s s'"
proof -
  assume a: "proxy_set call k v s = Some s'"
  let ?s1 = "s\<lparr>target := (target s)(k := v)\<rparr>"
  have r1: "R s ?s1" using assms(1) unfolding step_closed_def by blast
  have r2: "R ?s1 s'"
  proof (cases "strict_neq (target s k) v")
    case True
    with a have t: "trigger call k ?s1 = Some s'" by (simp add: proxy_set_def Let_def)
    show ?thesis
    proof (cases "deps ?s1 k")
      case None
      with t have "s' = ?s1" by (simp add: trigger_def)
      with assms(1) show ?thesis unfolding step_closed_def by simp
    next
      case (Some effects)
      with t have "forEach_effect call effects ?s1 = Some s'" by (simp add: trigger_def)
      with forEach_effect_rel [of R call effects ?s1 s'] assms show ?thesis by blast
    qed
  next
    case False
    with a have "s' = ?s1" by (simp add: proxy_set_def Let_def)
    with assms(1) show ?thesis unfolding step_closed_def by simp
  qed
  from r1 r2 assms(1) show "R s s'" unfolding step_closed_def by blast
qed

lemma wrappedEffect_with_rel:
  assumes "step_closed R" and "\<And>p s s'. run_fn p s = Some s' \<Longrightarrow> R s s'"
  shows "wrappedEffect_with run_fn fn e s = Some s' \<Longrightarrow> R s s'"
proof -
  assume a: "wrappedEffect_with run_fn fn e s = Some s'"
  let ?s2 = "(cleanup e (s\<lparr>trace := trace s @ [Run e]\<rparr>))\<lparr>currentEffect := Some e\<rparr>"
  from a obtain s3 where
    b: "run_fn fn ?s2 = Some s3" and c: "s' = s3\<lparr>currentEffect := currentEffect s\<rparr>"
    by (auto simp: wrappedEffect_with_def Let_def split: option.splits)
  from assms(2) [OF b] assms(1) show "R s s'"
    unfolding step_closed_def c by blast
qed

lemma exec_rel:
  assumes "step_closed R"
  shows "exec n fns p s = Some s' \<Longrightarrow> R s s'"
proof (induction n arbitrary: p s s')
  case 0
  then show ?case by simp
next
  case (Suc n)
  show ?case
  proof (cases p)
    case Done
    with Suc.prems assms show ?thesis by (simp add: step_closed_def)
  next
    case (Get k f)
    with Suc.prems have "exec n fns (f (target s k)) (track k s) = Some s'" by simp
    from Suc.IH [OF this] have "R (track k s) s'" .
    moreover have "R s (track k s)" using assms unfolding step_closed_def by blast
    ultimately show ?thesis using assms unfolding step_closed_def by blast
  next
    case (Put k v q)
    let ?call = "\<lambda>e. wrappedEffect_with (exec n fns) (fns e) e"
    from Suc.prems Put obtain s1 where
      a: "proxy_set ?call k v s = Some s1" and b: "exec n fns q s1 = Some s'"
      by (auto split: option.splits)
    have "\<And>e s s'. ?call e s = Some s' \<Longrightarrow> R s s'"
      by (rule wrappedEffect_with_rel [OF assms]) (auto dest: Suc.IH)
    with a have "R s s1" by (rule proxy_set_rel [OF assms, rotated 1])
    with Suc.IH [OF b] assms show ?thesis unfolding step_closed_def by blast
  qed
qed

lemma wrappedEffect_rel:
  assumes "step_closed R" and "wrappedEffect n fns e s = Some s'"
  shows "R s s'"
proof -
  have "\<And>p s s'. exec n fns p s = Some s' \<Longrightarrow> R s s'"
    by (rule exec_rel [OF assms(1)])
  with wrappedEffect_with_rel [of R "exec n fns" "fns e" e s s'] assms show ?thesis
    unfolding wrappedEffect_def by blast
qed

lemma set_prop_rel:
  assumes "step_closed R" and "set_prop n fns k v s = Some s'"
  shows "R s s'"
proof -
  have "\<And>e s s'. wrappedEffect n fns e s = Some s' \<Longrightarrow> R s s'"
    by (rule wrappedEffect_rel [OF assms(1)])
  with proxy_set_rel [of R "wrappedEffect n fns" k v s s'] assms show ?thesis
    unfolding set_prop_def by blast
qed


subsection \<open>currentEffect is restored\<close>

lemma track_currentEffect [simp]: "currentEffect (track k s) = currentEffect s"
  by (simp add: track_def Let_def split: option.splits)

lemma step_closed_currentEffect: "step_closed (\<lambda>s s'. currentEffect s' = currentEffect s)"
  by (simp add: step_closed_def)

lemma wrappedEffect_currentEffect:
  "wrappedEffect n fns e s = Some s' \<Longrightarrow> currentEffect s' = currentEffect s"
  by (rule wrappedEffect_rel [OF step_closed_currentEffect])

subsection \<open>The notification pass runs the snapshot\<close>

text \<open>Calling each effect of a list once, in order.\<close>

fun call_each ::
  "(eid \<Rightarrow> rstate \<Rightarrow> rstate option) \<Rightarrow> eid list \<Rightarrow> rstate \<Rightarrow> rstate option" where
  "call_each call [] s = Some s"
| "call_each call (e # es) s =
     (case call e s of None \<Rightarrow> None | Some s' \<Rightarrow> call_each call es s')"

lemma forEach_effect_call_each:
  assumes "\<And>e s s'. call e s = Some s' \<Longrightarrow> currentEffect s' = currentEffect s"
  shows "forEach_effect call es s
           = call_each call (filter (\<lambda>e. Some e \<noteq> currentEffect s) es) s"
proof (induction es arbitrary: s)
  case Nil
  show ?case by simp
next
  case (Cons e es)
  show ?case
  proof (cases "Some e \<noteq> currentEffect s")
    case True
    show ?thesis
    proof (cases "call e s")
      case None
      with True show ?thesis by simp
    next
      case (Some s1)
      from assms [OF Some] have "currentEffect s1 = currentEffect s" .
      with True Some Cons.IH [of s1] show ?thesis by simp
    qed
  next
    case False
    with Cons.IH [of s] show ?thesis by simp
  qed
qed

lemma trigger_call_each:
  "trigger (wrappedEffect n fns) k s
     = call_each (wrappedEffect n fns) (filter (\<lambda>e. Some e \<noteq> currentEffect s) (subscribers s k)) s"
proof (cases "deps s k")
  case None
  then show ?thesis by (simp add: trigger_def subscribers_def)
next
  case (Some effects)
  then show ?thesis
    using forEach_effect_call_each [of "wrappedEffect n fns" effects s]
    by (simp add: trigger_def subscribers_def wrappedEffect_currentEffect)
qed

subsection \<open>The two indexes stay consistent\<close>

text \<open>
  Every dependency set that holds an effect is recorded in the \<open>deps\<close> array of that
  effect, and a dependency set holds an effect once.
\<close>

definition consistent :: "rstate \<Rightarrow> bool" where
  "consistent s \<longleftrightarrow>
     (\<forall>e k. e \<in> set (subscribers s k) \<longrightarrow> k \<in> set (effect_deps s e))
     \<and> (\<forall>k. distinct (subscribers s k))"

lemma cleanup_loop_apply:
  "cleanup_loop e ks ds k = (if k \<in> set ks then map_option (set_delete e) (ds k) else ds k)"
proof (induction ks arbitrary: ds)
  case Nil
  show ?case by simp
next
  case (Cons a ks)
  have idem: "set_delete e (set_delete e d) = set_delete e d" for d
    by (simp add: set_delete_def)
  show ?case
    by (auto simp: Cons.IH idem split: option.splits)
qed

lemma subscribers_cleanup:
  "subscribers (cleanup e s) k
     = (if k \<in> set (effect_deps s e) then removeAll e (subscribers s k) else subscribers s k)"
  by (simp add: subscribers_def cleanup_def cleanup_loop_apply set_delete_def split: option.splits)

lemma effect_deps_cleanup:
  "effect_deps (cleanup e s) e' = (if e' = e then [] else effect_deps s e')"
  by (simp add: cleanup_def)

lemma subscribers_track:
  "subscribers (track k s) k'
     = (case currentEffect s of
          None \<Rightarrow> subscribers s k'
        | Some e \<Rightarrow> if k' = k then set_add e (subscribers s k) else subscribers s k')"
  by (simp add: subscribers_def track_def Let_def split: option.splits)

lemma effect_deps_track:
  "effect_deps (track k s) e'
     = (case currentEffect s of
          None \<Rightarrow> effect_deps s e'
        | Some e \<Rightarrow> if e' = e then effect_deps s e @ [k] else effect_deps s e')"
  by (simp add: track_def Let_def split: option.splits)

lemma trace_track:
  "trace (track k s)
     = (case currentEffect s of None \<Rightarrow> trace s | Some e \<Rightarrow> trace s @ [Track e k])"
  by (simp add: track_def Let_def split: option.splits)

lemma subscribers_simps [simp]:
  "subscribers (s\<lparr>target := t\<rparr>) = subscribers s"
  "subscribers (s\<lparr>trace := tr\<rparr>) = subscribers s"
  "subscribers (s\<lparr>currentEffect := c\<rparr>) = subscribers s"
  "subscribers (s\<lparr>effect_deps := ed\<rparr>) = subscribers s"
  by (simp_all add: subscribers_def fun_eq_iff)

lemma consistent_track: "consistent s \<Longrightarrow> consistent (track k s)"
  unfolding consistent_def
  by (auto simp: subscribers_track effect_deps_track set_add_def split: option.splits if_splits)

lemma consistent_cleanup: "consistent s \<Longrightarrow> consistent (cleanup e s)"
  unfolding consistent_def
  by (auto simp: subscribers_cleanup effect_deps_cleanup distinct_removeAll split: if_splits)

lemma cleanup_unsubscribes:
  "consistent s \<Longrightarrow> e \<notin> set (subscribers (cleanup e s) k)"
  unfolding consistent_def by (auto simp: subscribers_cleanup)

lemma consistent_simps [simp]:
  "consistent (s\<lparr>target := t\<rparr>) = consistent s"
  "consistent (s\<lparr>trace := tr\<rparr>) = consistent s"
  "consistent (s\<lparr>currentEffect := c\<rparr>) = consistent s"
  by (simp_all add: consistent_def)

lemma step_closed_consistent: "step_closed (\<lambda>s s'. consistent s \<longrightarrow> consistent s')"
  unfolding step_closed_def
  by (auto intro: consistent_track consistent_cleanup)

subsection \<open>Subscriptions come from reads\<close>

definition grows :: "rstate \<Rightarrow> rstate \<Rightarrow> bool" where
  "grows s s' \<longleftrightarrow>
     (\<exists>evs. trace s' = trace s @ evs
        \<and> (\<forall>e k. e \<in> set (subscribers s' k) \<longrightarrow> e \<in> set (subscribers s k) \<or> Track e k \<in> set evs))"

lemma grows_refl: "grows s s"
  by (simp add: grows_def)

lemma grows_trans: "grows s t \<Longrightarrow> grows t u \<Longrightarrow> grows s u"
  unfolding grows_def
  by (elim exE conjE, rule_tac x = "evs @ evsa" in exI) auto

lemma grows_track: "grows s (track k s)"
  unfolding grows_def
  by (cases "currentEffect s")
     (auto simp: subscribers_track trace_track set_add_def split: if_splits)

lemma grows_wrapped:
  assumes "grows ((cleanup e (s\<lparr>trace := trace s @ [Run e]\<rparr>))\<lparr>currentEffect := Some e\<rparr>) s3"
  shows "grows s (s3\<lparr>currentEffect := currentEffect s\<rparr>)"
proof -
  from assms obtain evs where
    t: "trace s3 = trace s @ [Run e] @ evs" and
    sub: "\<And>e' k. e' \<in> set (subscribers s3 k) \<Longrightarrow>
            e' \<in> set (subscribers (cleanup e (s\<lparr>trace := trace s @ [Run e]\<rparr>)) k)
            \<or> Track e' k \<in> set evs"
    unfolding grows_def by auto
  have "e' \<in> set (subscribers s k) \<or> Track e' k \<in> set ([Run e] @ evs)"
    if "e' \<in> set (subscribers s3 k)" for e' k
    using sub [OF that] by (auto simp: subscribers_cleanup split: if_splits)
  with t show ?thesis unfolding grows_def by (intro exI [of _ "[Run e] @ evs"]) auto
qed

lemma step_closed_grows: "step_closed grows"
  unfolding step_closed_def
  using grows_refl grows_trans grows_track grows_wrapped
  by (auto simp: grows_def)


subsection \<open>What a call of an effect logs\<close>

lemma wrappedEffect_trace:
  assumes "wrappedEffect n fns e s = Some s'"
  shows "\<exists>evs. trace s' = trace s @ Run e # evs
           \<and> (\<forall>e' k. e' \<in> set (subscribers s' k) \<longrightarrow>
                 e' \<in> set (subscribers (cleanup e s) k) \<or> Track e' k \<in> set evs)"
proof -
  let ?s2 = "(cleanup e (s\<lparr>trace := trace s @ [Run e]\<rparr>))\<lparr>currentEffect := Some e\<rparr>"
  from assms obtain s3 where
    b: "exec n fns (fns e) ?s2 = Some s3" and c: "s' = s3\<lparr>currentEffect := currentEffect s\<rparr>"
    by (auto simp: wrappedEffect_def wrappedEffect_with_def Let_def split: option.splits)
  from exec_rel [OF step_closed_grows b] obtain evs where
    t: "trace s3 = trace ?s2 @ evs" and
    sub: "\<And>e' k. e' \<in> set (subscribers s3 k) \<Longrightarrow>
            e' \<in> set (subscribers ?s2 k) \<or> Track e' k \<in> set evs"
    unfolding grows_def by auto
  have "subscribers ?s2 k = subscribers (cleanup e s) k" for k
    by (simp add: subscribers_cleanup)
  with t sub c show ?thesis by (intro exI [of _ evs]) auto
qed

lemma call_each_trace:
  assumes "\<And>e s s'. call e s = Some s' \<Longrightarrow> \<exists>evs. trace s' = trace s @ Run e # evs"
  shows "call_each call es s = Some s' \<Longrightarrow>
         \<exists>evs. trace s' = trace s @ evs \<and> (\<forall>e \<in> set es. Run e \<in> set evs)"
proof (induction es arbitrary: s)
  case Nil
  then show ?case by simp
next
  case (Cons e es)
  from Cons.prems obtain s1 where
    a: "call e s = Some s1" and b: "call_each call es s1 = Some s'"
    by (auto split: option.splits)
  from assms [OF a] obtain evs1 where t1: "trace s1 = trace s @ Run e # evs1" by blast
  from Cons.IH [OF b] obtain evs2 where
    t2: "trace s' = trace s1 @ evs2" and r: "\<forall>e \<in> set es. Run e \<in> set evs2" by blast
  show ?case
    by (rule exI [of _ "Run e # evs1 @ evs2"]) (use t1 t2 r in auto)
qed

lemma set_prop_unchanged:
  "\<not> strict_neq (target s k) v \<Longrightarrow> set_prop n fns k v s = Some (s\<lparr>target := (target s)(k := v)\<rparr>)"
  by (simp add: set_prop_def proxy_set_def Let_def)

lemma set_prop_changed:
  "strict_neq (target s k) v \<Longrightarrow>
   set_prop n fns k v s
     = call_each (wrappedEffect n fns)
         (filter (\<lambda>e. Some e \<noteq> currentEffect s) (subscribers s k))
         (s\<lparr>target := (target s)(k := v)\<rparr>)"
  using trigger_call_each [of n fns k "s\<lparr>target := (target s)(k := v)\<rparr>"]
  by (simp add: set_prop_def proxy_set_def Let_def)

lemma set_prop_notifies:
  assumes "strict_neq (target s k) v" and "set_prop n fns k v s = Some s'"
  shows "\<exists>evs. trace s' = trace s @ evs
           \<and> (\<forall>e \<in> set (subscribers s k). Some e \<noteq> currentEffect s \<longrightarrow> Run e \<in> set evs)"
proof -
  let ?s1 = "s\<lparr>target := (target s)(k := v)\<rparr>"
  let ?es = "filter (\<lambda>e. Some e \<noteq> currentEffect s) (subscribers s k)"
  from assms have "call_each (wrappedEffect n fns) ?es ?s1 = Some s'"
    by (simp add: set_prop_changed)
  then have "\<exists>evs. trace s' = trace ?s1 @ evs \<and> (\<forall>e \<in> set ?es. Run e \<in> set evs)"
    by (rule call_each_trace [rotated]) (use wrappedEffect_trace in blast)
  then show ?thesis by auto
qed

lemma run_actions_observe:
  "map_option f (run_actions m fns as s) = Some v \<Longrightarrow> m \<le> n \<Longrightarrow>
   map_option f (run_actions n fns as s) = Some v"
  by (auto dest: run_actions_mono)

text \<open>The store \<open>{count: 0}\<close> with one effect that reads \<open>count\<close>.\<close>

definition counter_fns :: "eid \<Rightarrow> prog" where
  "counter_fns e = Get ''count'' (\<lambda>v. Done)"

definition counter_store :: rstate where
  "counter_store = createReactive [(''count'', JNum 0)]"

text \<open>The store of the example once the effect is subscribed to \<open>count\<close>.\<close>

definition counter_subscribed :: rstate where
  "counter_subscribed =
     \<lparr>target = prop_get [(''count'', JNum 0)], deps = [''count'' \<mapsto> [0]],
      effect_deps = (\<lambda>e. if e = 0 then [''count''] else []), currentEffect = None, trace = []\<rparr>"

text \<open>
  Effect 0 reads \<open>count\<close> and then writes \<open>count = 1\<close>; every other effect only reads \<open>count\<close>.
\<close>

definition self_fns :: "eid \<Rightarrow> prog" where
  "self_fns e =
     (if e = 0 then Get ''count'' (\<lambda>v. Put ''count'' (JNum 1) Done)
      else Get ''count'' (\<lambda>v. Done))"

text \<open>
  The store \<open>{count: 0}\<close> at a moment when effect 0 is running and effects 1 and 0 are
  subscribed to \<open>count\<close>.
\<close>

definition self_active :: rstate where
  "self_active =
     \<lparr>target = prop_get [(''count'', JNum 0)], deps = [''count'' \<mapsto> [1, 0]],
      effect_deps = (\<lambda>e. if e = 0 \<or> e = 1 then [''count''] else []), currentEffect = Some 0,
      trace = []\<rparr>"

text \<open>
  Claim C3.  A write of a value strictly equal to the stored one returns at once, with no
  effect called.  A write of a different value stores it and is then the call, in order
  and once each, of the effects that are subscribed to the key when the write begins and
  are not the active effect: the active effect is not among them, every other
  subscriber is, and when the write returns the log holds a call of each of them.  With
  the store \<open>{count: 0}\<close> and one effect reading \<open>count\<close>, registered and so run once, the
  write \<open>count = 1\<close> brings the number of its runs to two, and a second write \<open>count = 1\<close>
  leaves it at two.  With an effect 1 that reads \<open>count\<close> and an effect 0 that reads
  \<open>count\<close> and writes it, the registration of effect 0 runs effect 0 once only, its own
  write skipping it, and runs effect 1 a second time.  The examples hold for every bound
  on the number of steps from 4 on.
\<close>

theorem write_notifies_subscribers:
  "(\<not> strict_neq (target s k) v \<longrightarrow>
      set_prop n fns k v s = Some (s\<lparr>target := (target s)(k := v)\<rparr>))
   \<and> (strict_neq (target s k) v \<longrightarrow>
        set_prop n fns k v s
          = call_each (wrappedEffect n fns)
              (filter (\<lambda>e. Some e \<noteq> currentEffect s) (subscribers s k))
              (s\<lparr>target := (target s)(k := v)\<rparr>))
   \<and> (currentEffect s = Some a \<longrightarrow>
        a \<notin> set (filter (\<lambda>e. Some e \<noteq> currentEffect s) (subscribers s k)))
   \<and> (e \<in> set (subscribers s k) \<and> Some e \<noteq> currentEffect s \<longrightarrow>
        e \<in> set (filter (\<lambda>e. Some e \<noteq> currentEffect s) (subscribers s k)))
   \<and> (call_each (wrappedEffect n fns) es s = Some s' \<longrightarrow>
        (\<exists>evs. trace s' = trace s @ evs \<and> (\<forall>e \<in> set es. Run e \<in> set evs)))
   \<and> (strict_neq (target s k) v \<and> set_prop n fns k v s = Some s' \<longrightarrow>
        (\<exists>evs. trace s' = trace s @ evs
           \<and> (\<forall>e \<in> set (subscribers s k). Some e \<noteq> currentEffect s \<longrightarrow> Run e \<in> set evs)))
   \<and> (4 \<le> m \<longrightarrow>
        map_option (runs_of 0) (run_actions m counter_fns [Register 0] counter_store) = Some 1
        \<and> map_option (runs_of 0)
            (run_actions m counter_fns [Register 0, Write ''count'' (JNum 1)] counter_store)
          = Some 2
        \<and> map_option (runs_of 0)
            (run_actions m counter_fns
               [Register 0, Write ''count'' (JNum 1), Write ''count'' (JNum 1)] counter_store)
          = Some 2
        \<and> map_option (\<lambda>s. (runs_of 0 s, runs_of 1 s))
            (run_actions m self_fns [Register 1] counter_store) = Some (0, 1)
        \<and> map_option (\<lambda>s. (trace s, runs_of 0 s, runs_of 1 s))
            (run_actions m self_fns [Register 1, Register 0] counter_store)
          = Some ([Run 1, Track 1 ''count'', Run 0, Track 0 ''count'', Run 1, Track 1 ''count''],
                  1, 2))"
proof (intro conjI impI)
  assume "\<not> strict_neq (target s k) v"
  then show "set_prop n fns k v s = Some (s\<lparr>target := (target s)(k := v)\<rparr>)"
    by (rule set_prop_unchanged)
next
  assume "strict_neq (target s k) v"
  then show "set_prop n fns k v s
          = call_each (wrappedEffect n fns)
              (filter (\<lambda>e. Some e \<noteq> currentEffect s) (subscribers s k))
              (s\<lparr>target := (target s)(k := v)\<rparr>)"
    by (rule set_prop_changed)
next
  assume "currentEffect s = Some a"
  then show "a \<notin> set (filter (\<lambda>e. Some e \<noteq> currentEffect s) (subscribers s k))" by simp
next
  assume "e \<in> set (subscribers s k) \<and> Some e \<noteq> currentEffect s"
  then show "e \<in> set (filter (\<lambda>e. Some e \<noteq> currentEffect s) (subscribers s k))" by simp
next
  assume "call_each (wrappedEffect n fns) es s = Some s'"
  then show "\<exists>evs. trace s' = trace s @ evs \<and> (\<forall>e \<in> set es. Run e \<in> set evs)"
    by (rule call_each_trace [rotated]) (use wrappedEffect_trace in blast)
next
  assume "strict_neq (target s k) v \<and> set_prop n fns k v s = Some s'"
  then show "\<exists>evs. trace s' = trace s @ evs
           \<and> (\<forall>e \<in> set (subscribers s k). Some e \<noteq> currentEffect s \<longrightarrow> Run e \<in> set evs)"
    using set_prop_notifies by blast
next
  assume m: "4 \<le> m"
  have "map_option (runs_of 0) (run_actions 4 counter_fns [Register 0] counter_store) = Some 1"
    by code_simp
  then show "map_option (runs_of 0) (run_actions m counter_fns [Register 0] counter_store) = Some 1"
    using m by (rule run_actions_observe)
  have "map_option (runs_of 0)
          (run_actions 4 counter_fns [Register 0, Write ''count'' (JNum 1)] counter_store)
        = Some 2"
    by code_simp
  then show "map_option (runs_of 0)
          (run_actions m counter_fns [Register 0, Write ''count'' (JNum 1)] counter_store)
        = Some 2"
    using m by (rule run_actions_observe)
  have "map_option (runs_of 0)
          (run_actions 4 counter_fns
             [Register 0, Write ''count'' (JNum 1), Write ''count'' (JNum 1)] counter_store)
        = Some 2"
    by code_simp
  then show "map_option (runs_of 0)
          (run_actions m counter_fns
             [Register 0, Write ''count'' (JNum 1), Write ''count'' (JNum 1)] counter_store)
        = Some 2"
    using m by (rule run_actions_observe)
  have "map_option (\<lambda>s. (runs_of 0 s, runs_of 1 s))
          (run_actions 4 self_fns [Register 1] counter_store) = Some (0, 1)"
    by code_simp
  then show "map_option (\<lambda>s. (runs_of 0 s, runs_of 1 s))
          (run_actions m self_fns [Register 1] counter_store) = Some (0, 1)"
    using m by (rule run_actions_observe)
  have "map_option (\<lambda>s. (trace s, runs_of 0 s, runs_of 1 s))
          (run_actions 4 self_fns [Register 1, Register 0] counter_store)
        = Some ([Run 1, Track 1 ''count'', Run 0, Track 0 ''count'', Run 1, Track 1 ''count''],
                1, 2)"
    by code_simp
  then show "map_option (\<lambda>s. (trace s, runs_of 0 s, runs_of 1 s))
          (run_actions m self_fns [Register 1, Register 0] counter_store)
        = Some ([Run 1, Track 1 ''count'', Run 0, Track 0 ''count'', Run 1, Track 1 ''count''],
                1, 2)"
    using m by (rule run_actions_observe)
qed

theorem write_notifies_subscribers_witness:
  "\<not> strict_neq (target counter_subscribed ''count'') (JNum 0)
   \<and> map_option trace (set_prop 4 counter_fns ''count'' (JNum 0) counter_subscribed) = Some []
   \<and> strict_neq (target self_active ''count'') (JNum 1)
   \<and> currentEffect self_active = Some 0
   \<and> subscribers self_active ''count'' = [1, 0]
   \<and> filter (\<lambda>e. Some e \<noteq> currentEffect self_active) (subscribers self_active ''count'') = [1]
   \<and> map_option trace (set_prop 4 self_fns ''count'' (JNum 1) self_active)
       = map_option trace
           (call_each (wrappedEffect 4 self_fns) [1]
              (self_active\<lparr>target := (target self_active)(''count'' := JNum 1)\<rparr>))
   \<and> map_option trace (set_prop 4 self_fns ''count'' (JNum 1) self_active)
       = Some [Run 1, Track 1 ''count'']
   \<and> (4 :: nat) \<le> 4
   \<and> map_option (\<lambda>s. (runs_of 0 s, runs_of 1 s))
        (run_actions 4 self_fns [Register 1, Register 0] counter_store)
      = Some (1, 2)"
proof -
  have a: "\<not> strict_neq (target counter_subscribed ''count'') (JNum 0)" by code_simp
  have b: "strict_neq (target self_active ''count'') (JNum 1)" by code_simp
  have c: "currentEffect self_active = Some 0" by code_simp
  have d: "subscribers self_active ''count'' = [1, 0]" by code_simp
  have f: "trace counter_subscribed = []" by code_simp
  from write_notifies_subscribers
         [where s = counter_subscribed and k = "''count''" and v = "JNum 0" and n = 4
            and fns = counter_fns, THEN conjunct1, THEN mp, OF a]
  have g: "map_option trace (set_prop 4 counter_fns ''count'' (JNum 0) counter_subscribed) = Some []"
    by (simp add: f)
  note t = write_notifies_subscribers
             [where s = self_active and k = "''count''" and v = "JNum 1" and n = 4
                and fns = self_fns and a = 0 and m = 4]
  have fl: "filter (\<lambda>e. Some e \<noteq> currentEffect self_active) (subscribers self_active ''count'')
              = [1]"
    by (simp add: c d)
  from t b have h: "set_prop 4 self_fns ''count'' (JNum 1) self_active
      = call_each (wrappedEffect 4 self_fns)
          (filter (\<lambda>e. Some e \<noteq> currentEffect self_active) (subscribers self_active ''count''))
          (self_active\<lparr>target := (target self_active)(''count'' := JNum 1)\<rparr>)"
    by blast
  have i: "map_option trace (set_prop 4 self_fns ''count'' (JNum 1) self_active)
             = Some [Run 1, Track 1 ''count'']"
    by code_simp
  from t have "map_option (\<lambda>s. (trace s, runs_of 0 s, runs_of 1 s))
            (run_actions 4 self_fns [Register 1, Register 0] counter_store)
          = Some ([Run 1, Track 1 ''count'', Run 0, Track 0 ''count'', Run 1, Track 1 ''count''],
                  1, 2)"
    by simp
  then have j: "map_option (\<lambda>s. (runs_of 0 s, runs_of 1 s))
        (run_actions 4 self_fns [Register 1, Register 0] counter_store)
      = Some (1, 2)"
    by auto
  from a b c d fl g h i j show ?thesis by simp
qed

subsection \<open>Dependencies follow the reads of the last run\<close>

lemma consistent_createReactive: "consistent (createReactive obj)"
  by (simp add: consistent_def createReactive_def subscribers_def)

lemma wrappedEffect_consistent:
  "consistent s \<Longrightarrow> wrappedEffect n fns e s = Some s' \<Longrightarrow> consistent s'"
  using wrappedEffect_rel [OF step_closed_consistent] by blast

lemma set_prop_consistent:
  "consistent s \<Longrightarrow> set_prop n fns k v s = Some s' \<Longrightarrow> consistent s'"
  using set_prop_rel [OF step_closed_consistent] by blast

lemma effect_consistent:
  assumes "consistent s" and "\<forall>k. e \<notin> set (subscribers s k)" and "effect n fns e s = Some s'"
  shows "consistent s'"
proof -
  have "consistent (s\<lparr>effect_deps := (effect_deps s)(e := [])\<rparr>)"
    using assms(1,2) unfolding consistent_def by auto
  with assms(3) show ?thesis
    unfolding effect_def by (rule wrappedEffect_consistent [rotated])
qed

lemma wrappedEffect_resubscribes:
  assumes "consistent s" and "wrappedEffect n fns e s = Some s'"
  shows "\<exists>evs. trace s' = trace s @ Run e # evs
           \<and> (\<forall>k. e \<in> set (subscribers s' k) \<longrightarrow> Track e k \<in> set evs)"
proof -
  from wrappedEffect_trace [OF assms(2)] obtain evs where
    t: "trace s' = trace s @ Run e # evs" and
    sub: "\<And>e' k. e' \<in> set (subscribers s' k) \<Longrightarrow>
            e' \<in> set (subscribers (cleanup e s) k) \<or> Track e' k \<in> set evs"
    by blast
  have "Track e k \<in> set evs" if "e \<in> set (subscribers s' k)" for k
    using sub [OF that] cleanup_unsubscribes [OF assms(1), of e k] by blast
  with t show ?thesis by blast
qed

lemma set_prop_no_subscribers:
  "subscribers s k = [] \<Longrightarrow> set_prop n fns k v s = Some (s\<lparr>target := (target s)(k := v)\<rparr>)"
  by (cases "strict_neq (target s k) v") (simp_all add: set_prop_changed set_prop_unchanged)

text \<open>An effect that reads \<open>x\<close> only when \<open>flag\<close> is true.\<close>

definition cond_fns :: "eid \<Rightarrow> prog" where
  "cond_fns e = Get ''flag'' (\<lambda>f. if f = JBool True then Get ''x'' (\<lambda>v. Done) else Done)"

definition cond_store :: rstate where
  "cond_store = createReactive [(''flag'', JBool True), (''x'', JNum 0)]"

text \<open>
  Claim C4.  In a store whose two indexes are consistent (as they are at creation and
  after every registration of a new effect, every effect call and every write that
  returns), \<open>cleanup\<close> takes the effect out
  of every dependency set and empties its \<open>deps\<close> array, and when the call of the effect
  returns, every dependency set that holds the effect was subscribed to by a read that
  the effect made during this call.  A write to a key that has no subscriber calls no
  effect.  For the effect that reads \<open>x\<close> only when \<open>flag\<close> is true: the write \<open>x = 1\<close> runs
  it again, the write \<open>flag = false\<close> runs it again and leaves \<open>x\<close> without subscriber, and
  the write \<open>x = 2\<close> after that runs nothing.
\<close>

theorem run_resubscribes_only_reads:
  "consistent (createReactive obj)
   \<and> (consistent s \<longrightarrow>
        (\<forall>k. e \<notin> set (subscribers (cleanup e s) k)) \<and> effect_deps (cleanup e s) e = [])
   \<and> (consistent s \<and> wrappedEffect n fns e s = Some s' \<longrightarrow>
        consistent s'
        \<and> (\<exists>evs. trace s' = trace s @ Run e # evs
              \<and> (\<forall>k. e \<in> set (subscribers s' k) \<longrightarrow> Track e k \<in> set evs)))
   \<and> (consistent s \<and> set_prop n fns k v s = Some s' \<longrightarrow> consistent s')
   \<and> (consistent s \<and> (\<forall>k. e \<notin> set (subscribers s k)) \<and> effect n fns e s = Some s' \<longrightarrow>
        consistent s')
   \<and> (subscribers s k = [] \<longrightarrow>
        set_prop n fns k v s = Some (s\<lparr>target := (target s)(k := v)\<rparr>))
   \<and> (3 \<le> m \<longrightarrow>
        map_option (\<lambda>s. (runs_of 0 s, subscribers s ''x''))
          (run_actions m cond_fns [Register 0] cond_store) = Some (1, [0])
        \<and> map_option (\<lambda>s. (runs_of 0 s, subscribers s ''x''))
            (run_actions m cond_fns [Register 0, Write ''x'' (JNum 1)] cond_store) = Some (2, [0])
        \<and> map_option (\<lambda>s. (runs_of 0 s, subscribers s ''x''))
            (run_actions m cond_fns
               [Register 0, Write ''x'' (JNum 1), Write ''flag'' (JBool False)] cond_store)
          = Some (3, [])
        \<and> map_option (\<lambda>s. (runs_of 0 s, subscribers s ''x''))
            (run_actions m cond_fns
               [Register 0, Write ''x'' (JNum 1), Write ''flag'' (JBool False),
                Write ''x'' (JNum 2)] cond_store)
          = Some (3, []))"
proof (intro conjI impI)
  show "consistent (createReactive obj)" by (rule consistent_createReactive)
next
  assume "consistent s"
  then show "\<forall>k. e \<notin> set (subscribers (cleanup e s) k)"
    by (simp add: cleanup_unsubscribes)
  show "effect_deps (cleanup e s) e = []" by (simp add: effect_deps_cleanup)
next
  assume a: "consistent s \<and> wrappedEffect n fns e s = Some s'"
  then show "consistent s'" using wrappedEffect_consistent by blast
  from a show "\<exists>evs. trace s' = trace s @ Run e # evs
              \<and> (\<forall>k. e \<in> set (subscribers s' k) \<longrightarrow> Track e k \<in> set evs)"
    using wrappedEffect_resubscribes by blast
next
  assume "consistent s \<and> set_prop n fns k v s = Some s'"
  then show "consistent s'" using set_prop_consistent by blast
next
  assume "consistent s \<and> (\<forall>k. e \<notin> set (subscribers s k)) \<and> effect n fns e s = Some s'"
  then show "consistent s'" using effect_consistent by blast
next
  assume "subscribers s k = []"
  then show "set_prop n fns k v s = Some (s\<lparr>target := (target s)(k := v)\<rparr>)"
    by (rule set_prop_no_subscribers)
next
  assume m: "3 \<le> m"
  have "map_option (\<lambda>s. (runs_of 0 s, subscribers s ''x''))
          (run_actions 3 cond_fns [Register 0] cond_store) = Some (1, [0])"
    by code_simp
  then show "map_option (\<lambda>s. (runs_of 0 s, subscribers s ''x''))
          (run_actions m cond_fns [Register 0] cond_store) = Some (1, [0])"
    using m by (rule run_actions_observe)
  have "map_option (\<lambda>s. (runs_of 0 s, subscribers s ''x''))
            (run_actions 3 cond_fns [Register 0, Write ''x'' (JNum 1)] cond_store) = Some (2, [0])"
    by code_simp
  then show "map_option (\<lambda>s. (runs_of 0 s, subscribers s ''x''))
            (run_actions m cond_fns [Register 0, Write ''x'' (JNum 1)] cond_store) = Some (2, [0])"
    using m by (rule run_actions_observe)
  have "map_option (\<lambda>s. (runs_of 0 s, subscribers s ''x''))
            (run_actions 3 cond_fns
               [Register 0, Write ''x'' (JNum 1), Write ''flag'' (JBool False)] cond_store)
          = Some (3, [])"
    by code_simp
  then show "map_option (\<lambda>s. (runs_of 0 s, subscribers s ''x''))
            (run_actions m cond_fns
               [Register 0, Write ''x'' (JNum 1), Write ''flag'' (JBool False)] cond_store)
          = Some (3, [])"
    using m by (rule run_actions_observe)
  have "map_option (\<lambda>s. (runs_of 0 s, subscribers s ''x''))
            (run_actions 3 cond_fns
               [Register 0, Write ''x'' (JNum 1), Write ''flag'' (JBool False),
                Write ''x'' (JNum 2)] cond_store)
          = Some (3, [])"
    by code_simp
  then show "map_option (\<lambda>s. (runs_of 0 s, subscribers s ''x''))
            (run_actions m cond_fns
               [Register 0, Write ''x'' (JNum 1), Write ''flag'' (JBool False),
                Write ''x'' (JNum 2)] cond_store)
          = Some (3, [])"
    using m by (rule run_actions_observe)
qed

theorem run_resubscribes_only_reads_witness:
  "consistent cond_store
   \<and> map_option (\<lambda>s. (trace s, subscribers s ''flag'', subscribers s ''x''))
        (wrappedEffect 3 cond_fns 0 cond_store)
      = Some ([Run 0, Track 0 ''flag'', Track 0 ''x''], [0], [0])
   \<and> Track 0 ''flag'' \<in> set [Track 0 ''flag'', Track 0 ''x'']
   \<and> Track 0 ''x'' \<in> set [Track 0 ''flag'', Track 0 ''x'']
   \<and> (3 :: nat) \<le> 3
   \<and> map_option (\<lambda>s. (runs_of 0 s, subscribers s ''x''))
        (run_actions 3 cond_fns
           [Register 0, Write ''x'' (JNum 1), Write ''flag'' (JBool False), Write ''x'' (JNum 2)]
           cond_store)
      = Some (3, [])"
proof -
  have a: "consistent cond_store"
    unfolding cond_store_def using run_resubscribes_only_reads [THEN conjunct1] .
  have b: "map_option (\<lambda>s. (trace s, subscribers s ''flag'', subscribers s ''x''))
        (wrappedEffect 3 cond_fns 0 cond_store)
      = Some ([Run 0, Track 0 ''flag'', Track 0 ''x''], [0], [0])"
    by code_simp
  then obtain s' where
    c: "wrappedEffect 3 cond_fns 0 cond_store = Some s'" and
    d: "trace s' = [Run 0, Track 0 ''flag'', Track 0 ''x'']" and
    e: "subscribers s' ''flag'' = [0]" "subscribers s' ''x'' = [0]"
    by auto
  have t: "trace cond_store = []" by code_simp
  from run_resubscribes_only_reads
         [where s = cond_store and e = 0 and n = 3 and fns = cond_fns and s' = s',
          THEN conjunct2, THEN conjunct2, THEN conjunct1, THEN mp, OF conjI [OF a c]]
  obtain evs where
    f: "trace s' = trace cond_store @ Run 0 # evs" and
    g: "\<forall>k. 0 \<in> set (subscribers s' k) \<longrightarrow> Track 0 k \<in> set evs"
    by blast
  from f d t have evs: "evs = [Track 0 ''flag'', Track 0 ''x'']" by simp
  from g e have h: "Track 0 ''flag'' \<in> set evs" "Track 0 ''x'' \<in> set evs" by auto
  from run_resubscribes_only_reads [where m = 3]
  have i: "map_option (\<lambda>s. (runs_of 0 s, subscribers s ''x''))
        (run_actions 3 cond_fns
           [Register 0, Write ''x'' (JNum 1), Write ''flag'' (JBool False), Write ''x'' (JNum 2)]
           cond_store)
      = Some (3, [])"
    by simp
  from a b h i show ?thesis unfolding evs by simp
qed

subsection \<open>The snapshot of the subscribers\<close>

text \<open>
  Three effects: effect 0 reads \<open>k\<close> and, unless it read 0, sets \<open>flag\<close> to false; effect 1
  reads \<open>k\<close> only when \<open>flag\<close> is true; effect 2 reads \<open>k\<close> only when \<open>flag\<close> is false.
\<close>

definition snap_fns :: "eid \<Rightarrow> prog" where
  "snap_fns e =
     (if e = 0 then Get ''k'' (\<lambda>v. if v = JNum 0 then Done else Put ''flag'' (JBool False) Done)
      else if e = 1 then Get ''flag'' (\<lambda>f. if f = JBool True then Get ''k'' (\<lambda>v. Done) else Done)
      else Get ''flag'' (\<lambda>f. if f = JBool False then Get ''k'' (\<lambda>v. Done) else Done))"

definition snap_store :: rstate where
  "snap_store = createReactive [(''flag'', JBool True), (''k'', JNum 0)]"

lemma consistent_distinct:
  "consistent s \<Longrightarrow> distinct (filter (\<lambda>e. Some e \<noteq> currentEffect s) (subscribers s k))"
  by (simp add: consistent_def)

text \<open>
  Claim C10.  The effects that one notification calls are fixed when it starts: \<open>trigger\<close>
  calls, in order and once each, the effects that are subscribed to the key at that
  moment and are not the active effect, whatever those calls do to the dependency sets;
  a dependency set holds an effect once, and a call of an effect leaves \<open>currentEffect\<close> as
  it found it, so the test against the active effect has the same outcome at every
  iteration.  In the example the write \<open>k = 1\<close> starts with the subscribers 0 and 1; the
  call of effect 0 sets \<open>flag\<close>, whose own notification runs effects 1 and 2, after which
  effect 1 is no longer subscribed to \<open>k\<close> and effect 2 is; the notification of \<open>k\<close> then
  still calls effect 1 and does not call effect 2.
\<close>

theorem notification_runs_snapshot:
  "trigger (wrappedEffect n fns) k s
     = call_each (wrappedEffect n fns)
         (filter (\<lambda>e. Some e \<noteq> currentEffect s) (subscribers s k)) s
   \<and> (strict_neq (target s k) v \<longrightarrow>
        set_prop n fns k v s
          = call_each (wrappedEffect n fns)
              (filter (\<lambda>e. Some e \<noteq> currentEffect s) (subscribers s k))
              (s\<lparr>target := (target s)(k := v)\<rparr>))
   \<and> (consistent s \<longrightarrow> distinct (filter (\<lambda>e. Some e \<noteq> currentEffect s) (subscribers s k)))
   \<and> (wrappedEffect n fns e s = Some s' \<longrightarrow> currentEffect s' = currentEffect s)
   \<and> (9 \<le> m \<longrightarrow>
        map_option (\<lambda>s. (trace s, subscribers s ''k''))
          (run_actions m snap_fns [Register 0, Register 1, Register 2] snap_store)
        = Some ([Run 0, Track 0 ''k'', Run 1, Track 1 ''flag'', Track 1 ''k'',
                 Run 2, Track 2 ''flag''], [0, 1])
        \<and> map_option (\<lambda>s. (trace s, subscribers s ''k''))
            (run_actions m snap_fns [Register 0, Register 1, Register 2, Write ''k'' (JNum 1)]
               snap_store)
          = Some ([Run 0, Track 0 ''k'', Run 1, Track 1 ''flag'', Track 1 ''k'',
                   Run 2, Track 2 ''flag'',
                   Run 0, Track 0 ''k'', Run 1, Track 1 ''flag'', Run 2, Track 2 ''flag'',
                   Track 2 ''k'', Run 1, Track 1 ''flag''], [0, 2]))"
proof (intro conjI impI)
  show "trigger (wrappedEffect n fns) k s
     = call_each (wrappedEffect n fns)
         (filter (\<lambda>e. Some e \<noteq> currentEffect s) (subscribers s k)) s"
    by (rule trigger_call_each)
next
  assume "strict_neq (target s k) v"
  then show "set_prop n fns k v s
          = call_each (wrappedEffect n fns)
              (filter (\<lambda>e. Some e \<noteq> currentEffect s) (subscribers s k))
              (s\<lparr>target := (target s)(k := v)\<rparr>)"
    by (rule set_prop_changed)
next
  assume "consistent s"
  then show "distinct (filter (\<lambda>e. Some e \<noteq> currentEffect s) (subscribers s k))"
    by (rule consistent_distinct)
next
  assume "wrappedEffect n fns e s = Some s'"
  then show "currentEffect s' = currentEffect s" by (rule wrappedEffect_currentEffect)
next
  assume m: "9 \<le> m"
  have "map_option (\<lambda>s. (trace s, subscribers s ''k''))
          (run_actions 9 snap_fns [Register 0, Register 1, Register 2] snap_store)
        = Some ([Run 0, Track 0 ''k'', Run 1, Track 1 ''flag'', Track 1 ''k'',
                 Run 2, Track 2 ''flag''], [0, 1])"
    by code_simp
  then show "map_option (\<lambda>s. (trace s, subscribers s ''k''))
          (run_actions m snap_fns [Register 0, Register 1, Register 2] snap_store)
        = Some ([Run 0, Track 0 ''k'', Run 1, Track 1 ''flag'', Track 1 ''k'',
                 Run 2, Track 2 ''flag''], [0, 1])"
    using m by (rule run_actions_observe)
  have "map_option (\<lambda>s. (trace s, subscribers s ''k''))
            (run_actions 9 snap_fns [Register 0, Register 1, Register 2, Write ''k'' (JNum 1)]
               snap_store)
          = Some ([Run 0, Track 0 ''k'', Run 1, Track 1 ''flag'', Track 1 ''k'',
                   Run 2, Track 2 ''flag'',
                   Run 0, Track 0 ''k'', Run 1, Track 1 ''flag'', Run 2, Track 2 ''flag'',
                   Track 2 ''k'', Run 1, Track 1 ''flag''], [0, 2])"
    by code_simp
  then show "map_option (\<lambda>s. (trace s, subscribers s ''k''))
            (run_actions m snap_fns [Register 0, Register 1, Register 2, Write ''k'' (JNum 1)]
               snap_store)
          = Some ([Run 0, Track 0 ''k'', Run 1, Track 1 ''flag'', Track 1 ''k'',
                   Run 2, Track 2 ''flag'',
                   Run 0, Track 0 ''k'', Run 1, Track 1 ''flag'', Run 2, Track 2 ''flag'',
                   Track 2 ''k'', Run 1, Track 1 ''flag''], [0, 2])"
    using m by (rule run_actions_observe)
qed

theorem notification_runs_snapshot_witness:
  "consistent counter_subscribed
   \<and> distinct (filter (\<lambda>e. Some e \<noteq> currentEffect counter_subscribed)
                 (subscribers counter_subscribed ''count''))
   \<and> filter (\<lambda>e. Some e \<noteq> currentEffect counter_subscribed)
        (subscribers counter_subscribed ''count'') = [0]
   \<and> strict_neq (target counter_subscribed ''count'') (JNum 1)
   \<and> map_option trace (set_prop 3 counter_fns ''count'' (JNum 1) counter_subscribed)
      = map_option trace
          (call_each (wrappedEffect 3 counter_fns) [0]
             (counter_subscribed\<lparr>target := (target counter_subscribed)(''count'' := JNum 1)\<rparr>))
   \<and> (9 :: nat) \<le> 9
   \<and> map_option (\<lambda>s. subscribers s ''k'')
        (run_actions 9 snap_fns [Register 0, Register 1, Register 2, Write ''k'' (JNum 1)]
           snap_store)
      = Some [0, 2]"
proof -
  have a: "consistent counter_subscribed"
    by (simp add: consistent_def counter_subscribed_def subscribers_def)
  have b: "filter (\<lambda>e. Some e \<noteq> currentEffect counter_subscribed)
             (subscribers counter_subscribed ''count'') = [0]"
    by code_simp
  have c: "strict_neq (target counter_subscribed ''count'') (JNum 1)" by code_simp
  note t = notification_runs_snapshot
             [where s = counter_subscribed and k = "''count''" and v = "JNum 1" and n = 3
                and fns = counter_fns and m = 9]
  from t a have d: "distinct (filter (\<lambda>e. Some e \<noteq> currentEffect counter_subscribed)
                 (subscribers counter_subscribed ''count''))"
    by blast
  from t c have e: "set_prop 3 counter_fns ''count'' (JNum 1) counter_subscribed
      = call_each (wrappedEffect 3 counter_fns)
          (filter (\<lambda>e. Some e \<noteq> currentEffect counter_subscribed)
             (subscribers counter_subscribed ''count''))
          (counter_subscribed\<lparr>target := (target counter_subscribed)(''count'' := JNum 1)\<rparr>)"
    by blast
  from t have "map_option (\<lambda>s. (trace s, subscribers s ''k''))
            (run_actions 9 snap_fns [Register 0, Register 1, Register 2, Write ''k'' (JNum 1)]
               snap_store)
          = Some ([Run 0, Track 0 ''k'', Run 1, Track 1 ''flag'', Track 1 ''k'',
                   Run 2, Track 2 ''flag'',
                   Run 0, Track 0 ''k'', Run 1, Track 1 ''flag'', Run 2, Track 2 ''flag'',
                   Track 2 ''k'', Run 1, Track 1 ''flag''], [0, 2])"
    by simp
  then have f: "map_option (\<lambda>s. subscribers s ''k'')
        (run_actions 9 snap_fns [Register 0, Register 1, Register 2, Write ''k'' (JNum 1)]
           snap_store)
      = Some [0, 2]"
    by auto
  from a b c d e f show ?thesis by simp
qed

end
